theory Spec2Isabelle
  imports Complex_Main "HOL-Library.Sublist"
begin

section \<open>Double-precision numbers\<close>

text \<open>
  The script is \<^verbatim>\<open>src/plot.py\<close>. Its signal columns are pandas float columns, so a
  cell is an IEEE 754 binary64 number: not-a-number (the missing value of pandas), an
  infinity, or a finite number. A finite double is \<open>m * 2 ^ e\<close> with \<open>\<bar>m\<bar> < 2 ^ 53\<close> and
  \<open>- 1074 \<le> e \<le> 971\<close>; \<open>is_double\<close> says that a real is one. The two zeros compare equal
  and are one value here.
\<close>

datatype f64 = NaN | NegInf | PosInf | Fin real

text \<open>
  Rounding to nearest, ties to even. \<open>grid a\<close> is the exponent of the last mantissa bit
  that a magnitude \<open>a\<close> gets: the least \<open>e \<ge> - 1074\<close> with \<open>a < 2 ^ (e + 53)\<close>, at most
  971. A magnitude is rounded to the nearest multiple of \<open>2 ^ grid a\<close>; a result of
  \<open>2 ^ 1024\<close> or more is an infinity.
\<close>

function grid_from :: "int \<Rightarrow> real \<Rightarrow> int" where
  "grid_from e a = (if 971 \<le> e \<or> a < 2 powi (e + 53) then e else grid_from (e + 1) a)"
  by pat_completeness auto
termination
  by (relation "measure (\<lambda>(e, a). nat (971 - e))") auto

definition grid :: "real \<Rightarrow> int" where
  "grid a = grid_from (- 1074) a"

definition round_half_even :: "real \<Rightarrow> int" where
  "round_half_even q =
     (let n = \<lfloor>q\<rfloor>; r = q - of_int n
      in if r < 1 / 2 then n else if 1 / 2 < r then n + 1 else if even n then n else n + 1)"

definition round_mag :: "real \<Rightarrow> real" where
  "round_mag a = of_int (round_half_even (a / 2 powi grid a)) * 2 powi grid a"

definition round64 :: "real \<Rightarrow> f64" where
  "round64 x =
     (let y = round_mag \<bar>x\<bar>
      in if 2 ^ 1024 \<le> y then (if x < 0 then NegInf else PosInf)
         else Fin (if x < 0 then - y else y))"

definition is_double :: "real \<Rightarrow> bool" where
  "is_double x =
     (\<bar>x\<bar> < 2 ^ 1024 \<and> (let q = \<bar>x\<bar> / 2 powi grid \<bar>x\<bar> in of_int \<lfloor>q\<rfloor> = q))"

text \<open>The comparisons \<^verbatim>\<open><=\<close> and \<^verbatim>\<open>==\<close>: false whenever an operand is not a number.\<close>

fun fle :: "f64 \<Rightarrow> f64 \<Rightarrow> bool" where
  "fle NaN b = False"
| "fle a NaN = False"
| "fle NegInf b = True"
| "fle a PosInf = True"
| "fle (Fin x) (Fin y) = (x \<le> y)"
| "fle a b = False"

definition feq :: "f64 \<Rightarrow> f64 \<Rightarrow> bool" where
  "feq a b = (a \<noteq> NaN \<and> b \<noteq> NaN \<and> a = b)"

text \<open>
  Subtraction, multiplication and division: the exact result of two finite operands is
  rounded; the other cases are those of IEEE 754. A finite zero divisor counts as
  \<open>+0.0\<close>: the only divisor of the script is a maximum minus a minimum, which is never
  \<open>-0.0\<close>.
\<close>

definition negative :: "f64 \<Rightarrow> bool" where
  "negative a = (case a of NegInf \<Rightarrow> True | Fin x \<Rightarrow> x < 0 | _ \<Rightarrow> False)"

fun fsub :: "f64 \<Rightarrow> f64 \<Rightarrow> f64" where
  "fsub NaN b = NaN"
| "fsub a NaN = NaN"
| "fsub (Fin x) (Fin y) = round64 (x - y)"
| "fsub PosInf PosInf = NaN"
| "fsub NegInf NegInf = NaN"
| "fsub PosInf b = PosInf"
| "fsub NegInf b = NegInf"
| "fsub (Fin x) PosInf = NegInf"
| "fsub (Fin x) NegInf = PosInf"

fun fmul :: "f64 \<Rightarrow> f64 \<Rightarrow> f64" where
  "fmul NaN b = NaN"
| "fmul a NaN = NaN"
| "fmul (Fin x) (Fin y) = round64 (x * y)"
| "fmul a b =
     (if a = Fin 0 \<or> b = Fin 0 then NaN
      else if negative a = negative b then PosInf else NegInf)"

fun fdiv :: "f64 \<Rightarrow> f64 \<Rightarrow> f64" where
  "fdiv NaN b = NaN"
| "fdiv a NaN = NaN"
| "fdiv (Fin x) (Fin y) =
     (if y = 0 then (if x = 0 then NaN else if 0 < x then PosInf else NegInf)
      else round64 (x / y))"
| "fdiv (Fin x) b = Fin 0"
| "fdiv a (Fin y) = (if negative a = (y < 0) then PosInf else NegInf)"
| "fdiv a b = NaN"

section \<open>Data model\<close>

text \<open>
  A data frame has its column labels, its row labels (the index) and its rows, each row
  holding one cell per column. Column labels are unique, as \<^verbatim>\<open>read_csv\<close> makes them.
\<close>

type_synonym cell = f64

type_synonym series = "cell list"

record dataframe =
  columns :: "string list"
  index :: "nat list"
  rows :: "cell list list"

text \<open>The exceptions the script can raise or let through.\<close>

datatype exn =
    ReadError string
  | ValueError string
  | KeyError string

section \<open>Constants\<close>

definition EEG_CANDIDATES :: "string list" where
  "EEG_CANDIDATES =
     [''Fz'', ''Cz'', ''P3'', ''C3'', ''F3'', ''F4'', ''C4'', ''P4'',
      ''Fp1'', ''Fp2'', ''T3'', ''T4'', ''T5'', ''T6'', ''O1'', ''O2'',
      ''F7'', ''F8'', ''A1'', ''A2'', ''Pz'']"

definition IGNORE_EXACT :: "string set" where
  "IGNORE_EXACT =
     set [''Trigger'', ''Time_Offset'', ''ADC_Status'', ''ADC_Sequence'', ''Event'', ''Comments'']"

section \<open>Channel classifier\<close>

text \<open>
  \<^verbatim>\<open>detect_channels(df, include_ecg, include_cm)\<close>: the EEG list iterates the fixed
  candidates and keeps those present; the ECG list appends the two fixed labels in turn;
  the reference channel is \<open>None\<close> or \<open>CM\<close>.
\<close>

definition detect_channels :: "dataframe \<Rightarrow> bool \<Rightarrow> bool \<Rightarrow> string list \<times> string list \<times> string option" where
  "detect_channels df include_ecg include_cm =
     (let eeg_channels = [c \<leftarrow> EEG_CANDIDATES. c \<in> set (columns df)];
          ecg_channels = [];
          ecg_channels =
            (if include_ecg then
               (let ecg_channels =
                      (if ''X1:LEOG'' \<in> set (columns df) then ecg_channels @ [''X1:LEOG'']
                       else ecg_channels)
                in if ''X2:REOG'' \<in> set (columns df) then ecg_channels @ [''X2:REOG'']
                   else ecg_channels)
             else ecg_channels);
          cm_channel = None;
          cm_channel =
            (if include_cm \<and> ''CM'' \<in> set (columns df) then Some ''CM'' else cm_channel)
      in (eeg_channels, ecg_channels, cm_channel))"

text \<open>
  \<^verbatim>\<open>str.lower\<close> on the ASCII letters; every other byte is kept. The script only
  tests the lowered name for the ASCII prefix \<^verbatim>\<open>x3:\<close>, and no character other than
  \<^verbatim>\<open>X\<close> and \<^verbatim>\<open>x\<close> lowers to \<^verbatim>\<open>x\<close>, so the bytes beyond ASCII do not matter.
\<close>

definition lower_char :: "char \<Rightarrow> char" where
  "lower_char c =
     (let n = (of_char c :: nat) in if 65 \<le> n \<and> n \<le> 90 then char_of (n + 32) else c)"

definition lower :: "string \<Rightarrow> string" where
  "lower s = map lower_char s"

definition startswith :: "string \<Rightarrow> string \<Rightarrow> bool" where
  "startswith s p = (take (length p) s = p)"

definition is_ignored_column :: "string \<Rightarrow> bool" where
  "is_ignored_column col =
     (if col \<in> IGNORE_EXACT then True
      else if startswith col ''X3:'' \<or> startswith (lower col) ''x3:'' then True
      else False)"

section \<open>Series arithmetic and normalisation\<close>

text \<open>A series combined with a scalar, element by element; the length is kept.\<close>

definition series_mul :: "series \<Rightarrow> cell \<Rightarrow> series" where
  "series_mul s c = map (\<lambda>v. fmul v c) s"

definition scalar_mul :: "cell \<Rightarrow> series \<Rightarrow> series" where
  "scalar_mul c s = map (\<lambda>v. fmul c v) s"

definition series_sub :: "series \<Rightarrow> cell \<Rightarrow> series" where
  "series_sub s c = map (\<lambda>v. fsub v c) s"

definition series_div :: "series \<Rightarrow> cell \<Rightarrow> series" where
  "series_div s c = map (\<lambda>v. fdiv v c) s"

text \<open>
  \<^verbatim>\<open>Series.min()\<close> and \<^verbatim>\<open>Series.max()\<close> skip missing values and are missing
  themselves when nothing is left. An infinity is not missing.
\<close>

definition isna :: "cell \<Rightarrow> bool" where
  "isna c = (c = NaN)"

definition dropna :: "series \<Rightarrow> series" where
  "dropna s = [v \<leftarrow> s. \<not> isna v]"

definition fmin :: "cell \<Rightarrow> cell \<Rightarrow> cell" where
  "fmin a b = (if fle a b then a else b)"

definition fmax :: "cell \<Rightarrow> cell \<Rightarrow> cell" where
  "fmax a b = (if fle a b then b else a)"

definition series_min :: "series \<Rightarrow> cell" where
  "series_min s = (case dropna s of [] \<Rightarrow> NaN | v # vs \<Rightarrow> fold fmin vs v)"

definition series_max :: "series \<Rightarrow> cell" where
  "series_max s = (case dropna s of [] \<Rightarrow> NaN | v # vs \<Rightarrow> fold fmax vs v)"

definition minmax_normalize :: "series \<Rightarrow> series" where
  "minmax_normalize series =
     (let s_min = series_min series;
          s_max = series_max series
      in if isna s_min \<or> isna s_max \<or> feq s_max s_min then series_mul series (Fin 0)
         else series_sub
                (series_div (scalar_mul (Fin 2) (series_sub series s_min)) (fsub s_max s_min))
                (Fin 1))"

section \<open>Loader\<close>

text \<open>
  The slice \<^verbatim>\<open>[::n]\<close> for a positive step: the first element, then the slice of what
  follows \<open>n - 1\<close> elements later.
\<close>

fun stride_slice :: "nat \<Rightarrow> 'a list \<Rightarrow> 'a list" where
  "stride_slice n [] = []"
| "stride_slice n (x # xs) = x # stride_slice n (drop (n - 1) xs)"

definition iloc_rows :: "nat \<Rightarrow> dataframe \<Rightarrow> dataframe" where
  "iloc_rows n df = df\<lparr>index := stride_slice n (index df), rows := stride_slice n (rows df)\<rparr>"

definition reset_index :: "dataframe \<Rightarrow> dataframe" where
  "reset_index df = df\<lparr>index := [0..<length (rows df)]\<rparr>"

text \<open>What the script prints on the diagnostic stream, by message and payload.\<close>

datatype message =
    FailedToReadCsv exn
  | CsvNotFound string
  | NoPlottableChannels
  | ColumnsFound "string list"

text \<open>
  \<^verbatim>\<open>load_data(csv_path, downsample)\<close>. Reading the file is pandas' work, so
  \<open>read_csv\<close> is a parameter: it returns the parsed table or the exception raised.
  The result carries what was printed to the diagnostic stream.
\<close>

definition load_data :: "(string \<Rightarrow> exn + dataframe) \<Rightarrow> string \<Rightarrow> int \<Rightarrow> message list \<times> (exn + dataframe)" where
  "load_data read_csv csv_path downsample =
     (case read_csv csv_path of
        Inl e \<Rightarrow> ([FailedToReadCsv e], Inl e)
      | Inr df \<Rightarrow>
          (let df = (if downsample \<noteq> 0 \<and> downsample > 1
                     then reset_index (iloc_rows (nat downsample) df) else df)
           in if ''Time'' \<notin> set (columns df)
              then ([], Inl (ValueError ''CSV must include a 'Time' column in seconds.''))
              else ([], Inr df)))"

section \<open>Figure builder\<close>

text \<open>
  \<^verbatim>\<open>df[ch]\<close>: the column labelled \<open>ch\<close>, or \<^verbatim>\<open>KeyError\<close>. A pandas frame is
  rectangular, so every row has a cell at the column's position.
\<close>

fun position :: "'a \<Rightarrow> 'a list \<Rightarrow> nat option" where
  "position a [] = None"
| "position a (b # bs) = (if a = b then Some 0 else map_option Suc (position a bs))"

definition get_column :: "dataframe \<Rightarrow> string \<Rightarrow> exn + series" where
  "get_column df ch =
     (case position ch (columns df) of
        None \<Rightarrow> Inl (KeyError ch)
      | Some i \<Rightarrow> Inr (map (\<lambda>r. r ! i) (rows df)))"

text \<open>
  A trace of the figure: its legend name, its data, the panel it is drawn in and whether
  it uses the panel's secondary axis. Colours, widths, opacities and the layout calls are
  the plotting library's and are left out.
\<close>

record trace =
  trace_name :: string
  trace_x :: series
  trace_y :: series
  trace_row :: nat
  trace_secondary_y :: bool

record figure =
  traces :: "trace list"
  yaxis_titles :: "string list"

definition micro_volt :: string where
  "micro_volt = [char_of (0xC2 :: nat), char_of (0xB5 :: nat), CHR ''V'']"

definition eeg_trace :: "dataframe \<Rightarrow> series \<Rightarrow> bool \<Rightarrow> string \<Rightarrow> exn + trace" where
  "eeg_trace df time normalize_on ch =
     (case get_column df ch of
        Inl e \<Rightarrow> Inl e
      | Inr y \<Rightarrow>
          (let (y, name) = (if normalize_on then (minmax_normalize y, ch @ '' (norm)'') else (y, ch))
           in Inr \<lparr>trace_name = name, trace_x = time, trace_y = y,
                   trace_row = 1, trace_secondary_y = False\<rparr>))"

definition ecg_trace :: "dataframe \<Rightarrow> series \<Rightarrow> bool \<Rightarrow> string \<Rightarrow> exn + trace" where
  "ecg_trace df time normalize_on ch =
     (case get_column df ch of
        Inl e \<Rightarrow> Inl e
      | Inr col \<Rightarrow>
          (let y = series_mul col (Fin 1000);
               (y, name) = (if normalize_on then (minmax_normalize y, ch @ '' (norm)'')
                            else (y, ch @ '' ('' @ micro_volt @ '')''))
           in Inr \<lparr>trace_name = name, trace_x = time, trace_y = y,
                   trace_row = 1, trace_secondary_y = True\<rparr>))"

definition cm_trace :: "dataframe \<Rightarrow> series \<Rightarrow> bool \<Rightarrow> string \<Rightarrow> exn + trace" where
  "cm_trace df time normalize_on cm_channel =
     (case get_column df cm_channel of
        Inl e \<Rightarrow> Inl e
      | Inr y \<Rightarrow>
          (let (y, name) = (if normalize_on then (minmax_normalize y, cm_channel @ '' (norm)'')
                            else (y, cm_channel))
           in Inr \<lparr>trace_name = name, trace_x = time, trace_y = y,
                   trace_row = 2, trace_secondary_y = False\<rparr>))"

text \<open>A \<^verbatim>\<open>for\<close> loop adding one trace per channel; the first exception ends it.\<close>

fun for_each :: "('a \<Rightarrow> exn + 'b) \<Rightarrow> 'a list \<Rightarrow> exn + 'b list" where
  "for_each f [] = Inr []"
| "for_each f (a # as) =
     (case f a of
        Inl e \<Rightarrow> Inl e
      | Inr b \<Rightarrow> (case for_each f as of Inl e \<Rightarrow> Inl e | Inr bs \<Rightarrow> Inr (b # bs)))"

definition build_figure :: "dataframe \<Rightarrow> string list \<Rightarrow> string list \<Rightarrow> string option \<Rightarrow> bool \<Rightarrow> exn + figure" where
  "build_figure df eeg_channels ecg_channels cm_channel normalize_on =
     (case get_column df ''Time'' of
        Inl e \<Rightarrow> Inl e
      | Inr time \<Rightarrow>
     (case for_each (eeg_trace df time normalize_on) eeg_channels of
        Inl e \<Rightarrow> Inl e
      | Inr eeg \<Rightarrow>
     (case for_each (ecg_trace df time normalize_on) ecg_channels of
        Inl e \<Rightarrow> Inl e
      | Inr ecg \<Rightarrow>
     (case (case cm_channel of
              None \<Rightarrow> Inr []
            | Some c \<Rightarrow> (case cm_trace df time normalize_on c of Inl e \<Rightarrow> Inl e | Inr t \<Rightarrow> Inr [t])) of
        Inl e \<Rightarrow> Inl e
      | Inr cm \<Rightarrow>
          Inr \<lparr>traces = eeg @ ecg @ cm,
               yaxis_titles =
                 [if \<not> normalize_on then ''EEG ('' @ micro_volt @ '')'' else ''EEG (normalized)'',
                  if \<not> normalize_on then ''ECG ('' @ micro_volt @ '')'' else ''ECG (normalized)'',
                  if \<not> normalize_on then ''CM'' else ''CM (normalized)'']\<rparr>))))"

section \<open>The run\<close>

record args =
  arg_csv :: string
  arg_html_out :: "string option"
  arg_downsample :: int
  arg_no_ecg :: bool
  arg_no_cm :: bool
  arg_normalize :: bool

text \<open>
  \<^verbatim>\<open>df.drop(columns=drop_cols, errors="ignore")\<close>: the labelled columns leave the
  frame, with their cells in every row.
\<close>

definition drop_columns :: "string list \<Rightarrow> dataframe \<Rightarrow> dataframe" where
  "drop_columns names df =
     df\<lparr>columns := [c \<leftarrow> columns df. c \<notin> set names],
        rows := map (\<lambda>r. map snd [cv \<leftarrow> zip (columns df) r. fst cv \<notin> set names]) (rows df)\<rparr>"

definition drop_ignored :: "dataframe \<Rightarrow> dataframe" where
  "drop_ignored df =
     (let drop_cols = [c \<leftarrow> columns df. is_ignored_column c]
      in if drop_cols \<noteq> [] then drop_columns drop_cols df else df)"

text \<open>
  How a run of \<^verbatim>\<open>main\<close> ends: by \<^verbatim>\<open>sys.exit(n)\<close>, by an exception nobody
  catches, or after the figure is built. Writing the HTML file and opening the viewer are
  the plotting library's and are left out. Whether the path exists and what
  \<^verbatim>\<open>read_csv\<close> returns are parameters.
\<close>

datatype outcome =
    SysExit int
  | Uncaught exn
  | Built figure

definition main :: "(string \<Rightarrow> bool) \<Rightarrow> (string \<Rightarrow> exn + dataframe) \<Rightarrow> args \<Rightarrow> message list \<times> outcome" where
  "main path_exists read_csv args =
     (if \<not> path_exists (arg_csv args) then ([CsvNotFound (arg_csv args)], SysExit 1)
      else
        (case load_data read_csv (arg_csv args) (arg_downsample args) of
           (err, Inl e) \<Rightarrow> (err, Uncaught e)
         | (err, Inr df) \<Rightarrow>
             (let df = drop_ignored df;
                  (eeg_channels, ecg_channels, cm_channel) =
                     detect_channels df (\<not> arg_no_ecg args) (\<not> arg_no_cm args)
              in if eeg_channels = [] \<and> ecg_channels = [] \<and> cm_channel = None
                 then (err @ [NoPlottableChannels, ColumnsFound (columns df)], SysExit 2)
                 else
                   (case build_figure df eeg_channels ecg_channels cm_channel (arg_normalize args) of
                      Inl e \<Rightarrow> (err, Uncaught e)
                    | Inr fig \<Rightarrow> (err, Built fig)))))"

text \<open>
  The exit status the operating system sees: the argument of \<^verbatim>\<open>sys.exit\<close>, 1 when the
  interpreter ends on an uncaught exception, 0 when \<^verbatim>\<open>main\<close> returns.
\<close>

fun exit_status :: "outcome \<Rightarrow> int" where
  "exit_status (SysExit n) = n"
| "exit_status (Uncaught e) = 1"
| "exit_status (Built fig) = 0"

section \<open>Example inputs\<close>

text \<open>Concrete frames and runs at which the properties below are evaluated.\<close>

definition reversed_header_frame :: dataframe where
  "reversed_header_frame =
     \<lparr>columns = [''CM'', ''X1:LEOG'', ''Cz'', ''Fz'', ''Time''],
      index = [0, 1],
      rows = [[Fin 1, Fin 2, Fin 3, Fin 4, Fin 0], [Fin 5, NaN, Fin 3, Fin 8, Fin 1]]\<rparr>"

definition aux_frame :: dataframe where
  "aux_frame =
     \<lparr>columns = [''Trigger'', ''X3:Aux'', ''x3:aux2'', ''Fz''],
      index = [0, 1],
      rows = [[Fin 0, Fin 7, Fin 8, Fin 4], [Fin 1, Fin 7, NaN, Fin 6]]\<rparr>"

text \<open>A file system in which every path parses to the same result.\<close>

definition reads_as :: "exn + dataframe \<Rightarrow> string \<Rightarrow> exn + dataframe" where
  "reads_as r csv_path = r"

definition five_row_frame :: dataframe where
  "five_row_frame =
     \<lparr>columns = [''Time'', ''Fz''],
      index = [0, 1, 2, 3, 4],
      rows = [[Fin 0, Fin 10], [Fin 1, Fin 11], [Fin 2, NaN], [Fin 3, Fin 13],
              [Fin 4, Fin 14]]\<rparr>"

definition gapped_series :: series where
  "gapped_series = [Fin 1, NaN, Fin 5, Fin 2]"

definition constant_gapped_series :: series where
  "constant_gapped_series = [Fin 5, NaN, Fin 5]"

definition all_missing_series :: series where
  "all_missing_series = [NaN, NaN]"

definition constant_ecg_frame :: dataframe where
  "constant_ecg_frame =
     \<lparr>columns = [''Time'', ''Fz'', ''X1:LEOG''],
      index = [0, 1, 2],
      rows = [[Fin 0, Fin 4, Fin (1 / 2)], [Fin 1, Fin 8, Fin (1 / 2)],
              [Fin 2, Fin 6, Fin (1 / 2)]]\<rparr>"

definition no_signal_frame :: dataframe where
  "no_signal_frame =
     \<lparr>columns = [''Time'', ''Trigger'', ''X3:Aux''],
      index = [0, 1],
      rows = [[Fin 0, Fin 0, Fin 7], [Fin 1, Fin 1, Fin 7]]\<rparr>"

text \<open>File systems in which every path exists, or none does.\<close>

definition path_found :: "string \<Rightarrow> bool" where
  "path_found csv_path = True"

definition path_missing :: "string \<Rightarrow> bool" where
  "path_missing csv_path = False"

definition default_args :: args where
  "default_args =
     \<lparr>arg_csv = ''rec.csv'', arg_html_out = None, arg_downsample = 1,
      arg_no_ecg = False, arg_no_cm = False, arg_normalize = False\<rparr>"

text \<open>The largest power of two among the doubles, and inputs built from it.\<close>

definition huge :: real where
  "huge = 2 ^ 1023"

definition overflow_series :: series where
  "overflow_series = [Fin 0, Fin huge]"

definition infinite_series :: series where
  "infinite_series = [Fin 0, PosInf]"

definition constant_infinite_series :: series where
  "constant_infinite_series = [PosInf, PosInf]"

definition overflow_ecg_frame :: dataframe where
  "overflow_ecg_frame =
     \<lparr>columns = [''Time'', ''X1:LEOG''],
      index = [0, 1],
      rows = [[Fin 0, Fin huge], [Fin 1, Fin huge]]\<rparr>"

section \<open>Properties of the channel classifier\<close>

lemma EEG_CANDIDATES_facts: "length EEG_CANDIDATES = 21" "distinct EEG_CANDIDATES"
  by (simp_all add: EEG_CANDIDATES_def)

lemma detect_channels_eeg:
  "fst (detect_channels df include_ecg include_cm) = [c \<leftarrow> EEG_CANDIDATES. c \<in> set (columns df)]"
  by (simp add: detect_channels_def Let_def)

lemma detect_channels_ecg:
  "fst (snd (detect_channels df include_ecg include_cm)) =
     (if include_ecg then [c \<leftarrow> [''X1:LEOG'', ''X2:REOG'']. c \<in> set (columns df)] else [])"
  by (simp add: detect_channels_def Let_def)

lemma detect_channels_cm:
  "snd (snd (detect_channels df include_ecg include_cm)) =
     (if include_cm \<and> ''CM'' \<in> set (columns df) then Some ''CM'' else None)"
  by (simp add: detect_channels_def Let_def)

lemma other_labels_not_eeg:
  "''X1:LEOG'' \<notin> set EEG_CANDIDATES" "''X2:REOG'' \<notin> set EEG_CANDIDATES"
  "''CM'' \<notin> set EEG_CANDIDATES"
  by (simp_all add: EEG_CANDIDATES_def)

text \<open>
  C9. For every frame and every setting of the two inclusion flags, the three outputs of
  the classifier are mutually exclusive: no name is in two of the EEG list, the ECG list
  and the reference channel. Neither list repeats a name.
\<close>

theorem detect_channels_exclusive:
  "(case detect_channels df include_ecg include_cm of
      (eeg_channels, ecg_channels, cm_channel) \<Rightarrow>
        set eeg_channels \<inter> set ecg_channels = {} \<and>
        set eeg_channels \<inter> set_option cm_channel = {} \<and>
        set ecg_channels \<inter> set_option cm_channel = {} \<and>
        distinct eeg_channels \<and> distinct ecg_channels)"
proof -
  obtain eeg ecg cm where d: "detect_channels df include_ecg include_cm = (eeg, ecg, cm)"
    by (cases "detect_channels df include_ecg include_cm") auto
  have eeg: "eeg = [c \<leftarrow> EEG_CANDIDATES. c \<in> set (columns df)]"
    using detect_channels_eeg [of df include_ecg include_cm] d by simp
  have ecg: "ecg = (if include_ecg then [c \<leftarrow> [''X1:LEOG'', ''X2:REOG'']. c \<in> set (columns df)] else [])"
    using detect_channels_ecg [of df include_ecg include_cm] d by simp
  have cm: "cm = (if include_cm \<and> ''CM'' \<in> set (columns df) then Some ''CM'' else None)"
    using detect_channels_cm [of df include_ecg include_cm] d by simp
  have 1: "set eeg \<inter> set ecg = {}"
    using other_labels_not_eeg by (auto simp: eeg ecg)
  have 2: "set eeg \<inter> set_option cm = {}"
    using other_labels_not_eeg by (auto simp: eeg cm)
  have 3: "set ecg \<inter> set_option cm = {}"
    by (auto simp: ecg cm)
  have 4: "distinct eeg" by (simp add: eeg EEG_CANDIDATES_facts)
  have 5: "distinct ecg" by (simp add: ecg)
  show ?thesis using 1 2 3 4 5 by (simp add: d)
qed

subsection \<open>The ignore set\<close>

lemma char_eq_code: "(c = d) = ((of_char c :: nat) = of_char d)"
  by simp

lemma lower_char_code:
  "(of_char (lower_char c) :: nat) =
     (if 65 \<le> (of_char c :: nat) \<and> (of_char c :: nat) \<le> 90 then of_char c + 32 else of_char c)"
  by (simp add: lower_char_def Let_def)

lemma lower_char_x: "lower_char c = CHR ''x'' \<longleftrightarrow> c = CHR ''X'' \<or> c = CHR ''x''"
  unfolding char_eq_code [of _ "CHR ''x''"] char_eq_code [of _ "CHR ''X''"] lower_char_code
  by auto

lemma lower_char_3: "lower_char c = CHR ''3'' \<longleftrightarrow> c = CHR ''3''"
  unfolding char_eq_code [of _ "CHR ''3''"] lower_char_code
  by auto

lemma lower_char_colon: "lower_char c = CHR '':'' \<longleftrightarrow> c = CHR '':''"
  unfolding char_eq_code [of _ "CHR '':''"] lower_char_code
  by auto

lemma startswith_iff: "startswith s p \<longleftrightarrow> (\<exists>rest. s = p @ rest)"
proof
  assume "startswith s p"
  then have "s = p @ drop (length p) s"
    unfolding startswith_def by (metis append_take_drop_id)
  then show "\<exists>rest. s = p @ rest" ..
next
  assume "\<exists>rest. s = p @ rest"
  then show "startswith s p" unfolding startswith_def by auto
qed

lemma startswith3:
  "startswith s [a, b, c] \<longleftrightarrow> (\<exists>r. s = a # b # c # r)"
  unfolding startswith_iff by simp

lemma lower_startswith_x3:
  "startswith (lower col) ''x3:'' \<longleftrightarrow> startswith col ''X3:'' \<or> startswith col ''x3:''"
proof -
  have "startswith (lower col) ''x3:'' \<longleftrightarrow>
        (\<exists>a b c r. col = a # b # c # r \<and> lower_char a = CHR ''x'' \<and> lower_char b = CHR ''3'' \<and> lower_char c = CHR '':'')"
    unfolding startswith3 lower_def by (auto simp: map_eq_Cons_conv)
  also have "\<dots> \<longleftrightarrow> (\<exists>r. col = CHR ''X'' # CHR ''3'' # CHR '':'' # r) \<or> (\<exists>r. col = CHR ''x'' # CHR ''3'' # CHR '':'' # r)"
    unfolding lower_char_x lower_char_3 lower_char_colon by blast
  finally show ?thesis unfolding startswith3 .
qed

lemma IGNORE_EXACT_iff:
  "col \<in> IGNORE_EXACT \<longleftrightarrow>
     col \<in> {''Trigger'', ''Time_Offset'', ''ADC_Status'', ''ADC_Sequence'', ''Event'', ''Comments''}"
  unfolding IGNORE_EXACT_def by simp

lemma is_ignored_column_iff:
  "is_ignored_column col \<longleftrightarrow>
     col \<in> {''Trigger'', ''Time_Offset'', ''ADC_Status'', ''ADC_Sequence'', ''Event'', ''Comments''} \<or>
     (\<exists>rest. col = ''X3:'' @ rest \<or> col = ''x3:'' @ rest)"
proof -
  have "is_ignored_column col \<longleftrightarrow>
          col \<in> IGNORE_EXACT \<or> startswith col ''X3:'' \<or> startswith (lower col) ''x3:''"
    unfolding is_ignored_column_def by simp
  also have "\<dots> \<longleftrightarrow> col \<in> IGNORE_EXACT \<or> startswith col ''X3:'' \<or> startswith col ''x3:''"
    unfolding lower_startswith_x3 by blast
  also have "\<dots> \<longleftrightarrow> col \<in> IGNORE_EXACT \<or> (\<exists>rest. col = ''X3:'' @ rest \<or> col = ''x3:'' @ rest)"
    unfolding startswith_iff by blast
  finally show ?thesis unfolding IGNORE_EXACT_iff .
qed

lemma ignored_not_candidate:
  assumes "is_ignored_column col"
  shows "col \<notin> set EEG_CANDIDATES" "col \<noteq> ''X1:LEOG''" "col \<noteq> ''X2:REOG''" "col \<noteq> ''CM''"
proof -
  from assms have d: "col \<in> {''Trigger'', ''Time_Offset'', ''ADC_Status'', ''ADC_Sequence'', ''Event'', ''Comments''} \<or>
     (\<exists>rest. col = ''X3:'' @ rest \<or> col = ''x3:'' @ rest)"
    by (simp only: is_ignored_column_iff)
  show "col \<notin> set EEG_CANDIDATES"
    using d unfolding EEG_CANDIDATES_def by auto
  show "col \<noteq> ''X1:LEOG''" using d by auto
  show "col \<noteq> ''X2:REOG''" using d by auto
  show "col \<noteq> ''CM''" using d by auto
qed

lemma columns_drop_ignored:
  "columns (drop_ignored df) = [c \<leftarrow> columns df. \<not> is_ignored_column c]"
proof (cases "[c \<leftarrow> columns df. is_ignored_column c] = []")
  case True
  then have "\<forall>c \<in> set (columns df). \<not> is_ignored_column c"
    by (simp add: filter_empty_conv)
  then have "[c \<leftarrow> columns df. \<not> is_ignored_column c] = columns df"
    by (simp add: filter_id_conv)
  then show ?thesis using True by (simp add: drop_ignored_def)
next
  case False
  then show ?thesis by (simp add: drop_ignored_def drop_columns_def Let_def cong: filter_cong)
qed

text \<open>
  C6. A column is dropped exactly when its name is one of \<^verbatim>\<open>Trigger\<close>,
  \<^verbatim>\<open>Time_Offset\<close>, \<^verbatim>\<open>ADC_Status\<close>, \<^verbatim>\<open>ADC_Sequence\<close>, \<^verbatim>\<open>Event\<close>,
  \<^verbatim>\<open>Comments\<close>, or starts with \<^verbatim>\<open>X3:\<close> or \<^verbatim>\<open>x3:\<close>. For every frame and every
  setting of the flags, such a column is not in the frame that reaches the classifier and
  is in none of its three outputs, while an EEG candidate that the frame has (such as
  \<^verbatim>\<open>Fz\<close>) stays in the frame and is classified as EEG.
\<close>

theorem ignored_columns_never_classified:
  "(is_ignored_column col \<longleftrightarrow>
      col \<in> {''Trigger'', ''Time_Offset'', ''ADC_Status'', ''ADC_Sequence'', ''Event'', ''Comments''} \<or>
      (\<exists>rest. col = ''X3:'' @ rest \<or> col = ''x3:'' @ rest)) \<and>
   (is_ignored_column col \<longrightarrow>
      col \<notin> set (columns (drop_ignored df)) \<and>
      (case detect_channels (drop_ignored df) include_ecg include_cm of
         (eeg_channels, ecg_channels, cm_channel) \<Rightarrow>
           col \<notin> set eeg_channels \<and> col \<notin> set ecg_channels \<and> cm_channel \<noteq> Some col)) \<and>
   (c \<in> set EEG_CANDIDATES \<and> c \<in> set (columns df) \<longrightarrow>
      c \<in> set (columns (drop_ignored df)) \<and>
      c \<in> set (fst (detect_channels (drop_ignored df) include_ecg include_cm)))"
proof (intro conjI impI)
  show "is_ignored_column col \<longleftrightarrow>
      col \<in> {''Trigger'', ''Time_Offset'', ''ADC_Status'', ''ADC_Sequence'', ''Event'', ''Comments''} \<or>
      (\<exists>rest. col = ''X3:'' @ rest \<or> col = ''x3:'' @ rest)"
    by (rule is_ignored_column_iff)
next
  assume "is_ignored_column col"
  then show "col \<notin> set (columns (drop_ignored df))"
    by (simp add: columns_drop_ignored)
next
  assume ign: "is_ignored_column col"
  obtain eeg ecg cm where d: "detect_channels (drop_ignored df) include_ecg include_cm = (eeg, ecg, cm)"
    by (cases "detect_channels (drop_ignored df) include_ecg include_cm") auto
  have "col \<notin> set eeg"
    using detect_channels_eeg [of "drop_ignored df" include_ecg include_cm] d
      ignored_not_candidate(1) [OF ign] by auto
  moreover have "col \<notin> set ecg"
    using detect_channels_ecg [of "drop_ignored df" include_ecg include_cm] d
      ignored_not_candidate(2,3) [OF ign] by (auto split: if_splits)
  moreover have "cm \<noteq> Some col"
    using detect_channels_cm [of "drop_ignored df" include_ecg include_cm] d
      ignored_not_candidate(4) [OF ign] by (auto split: if_splits)
  ultimately show "case detect_channels (drop_ignored df) include_ecg include_cm of
         (eeg_channels, ecg_channels, cm_channel) \<Rightarrow>
           col \<notin> set eeg_channels \<and> col \<notin> set ecg_channels \<and> cm_channel \<noteq> Some col"
    by (simp add: d)
next
  assume a: "c \<in> set EEG_CANDIDATES \<and> c \<in> set (columns df)"
  then have "\<not> is_ignored_column c"
    using ignored_not_candidate(1) [of c] by blast
  with a show k: "c \<in> set (columns (drop_ignored df))"
    by (simp add: columns_drop_ignored)
  with a show "c \<in> set (fst (detect_channels (drop_ignored df) include_ecg include_cm))"
    by (simp add: detect_channels_eeg)
qed

theorem ignored_columns_never_classified_witness:
  "is_ignored_column ''x3:aux2'' \<and>
   ''Fz'' \<in> set EEG_CANDIDATES \<and> ''Fz'' \<in> set (columns aux_frame) \<and>
   columns (drop_ignored aux_frame) = [''Fz''] \<and>
   ''x3:aux2'' \<notin> set (columns (drop_ignored aux_frame)) \<and>
   detect_channels (drop_ignored aux_frame) True True = ([''Fz''], [], None)"
  using ignored_columns_never_classified [of "''x3:aux2''" aux_frame True True "''Fz''"]
  by (simp add: is_ignored_column_def IGNORE_EXACT_def startswith_def lower_def lower_char_def
      aux_frame_def drop_ignored_def drop_columns_def detect_channels_def EEG_CANDIDATES_def)

text \<open>
  C7. The EEG list holds exactly the columns named by one of the 21 candidates, in the
  candidates' order (it is a subsequence of the candidate list, whatever the header's
  order); the ECG list, when ECG is included, is \<^verbatim>\<open>X1:LEOG\<close> then \<^verbatim>\<open>X2:REOG\<close>, each
  iff present; the reference, when included, is \<^verbatim>\<open>CM\<close> iff that column exists. A
  frame with the columns \<^verbatim>\<open>Time, Fz, Cz, X1:LEOG, CM\<close> in any order and the default flags
  gives EEG \<^verbatim>\<open>[Fz, Cz]\<close>, ECG \<^verbatim>\<open>[X1:LEOG]\<close> and reference \<^verbatim>\<open>CM\<close>.
\<close>

theorem detect_channels_fixed_order:
  "(case detect_channels df include_ecg include_cm of
      (eeg_channels, ecg_channels, cm_channel) \<Rightarrow>
        set eeg_channels = set (columns df) \<inter> set EEG_CANDIDATES \<and>
        subseq eeg_channels EEG_CANDIDATES \<and>
        ecg_channels =
          (if include_ecg then [c \<leftarrow> [''X1:LEOG'', ''X2:REOG'']. c \<in> set (columns df)] else []) \<and>
        cm_channel = (if include_cm \<and> ''CM'' \<in> set (columns df) then Some ''CM'' else None)) \<and>
   length EEG_CANDIDATES = 21 \<and> distinct EEG_CANDIDATES \<and>
   (set (columns df) = {''Time'', ''Fz'', ''Cz'', ''X1:LEOG'', ''CM''} \<longrightarrow>
      detect_channels df True True = ([''Fz'', ''Cz''], [''X1:LEOG''], Some ''CM''))"
proof (intro conjI impI)
  obtain eeg ecg cm where d: "detect_channels df include_ecg include_cm = (eeg, ecg, cm)"
    by (cases "detect_channels df include_ecg include_cm") auto
  have eeg: "eeg = [c \<leftarrow> EEG_CANDIDATES. c \<in> set (columns df)]"
    using detect_channels_eeg [of df include_ecg include_cm] d by simp
  have ecg: "ecg = (if include_ecg then [c \<leftarrow> [''X1:LEOG'', ''X2:REOG'']. c \<in> set (columns df)] else [])"
    using detect_channels_ecg [of df include_ecg include_cm] d by simp
  have cm: "cm = (if include_cm \<and> ''CM'' \<in> set (columns df) then Some ''CM'' else None)"
    using detect_channels_cm [of df include_ecg include_cm] d by simp
  have 1: "set eeg = set (columns df) \<inter> set EEG_CANDIDATES"
    unfolding eeg by auto
  have 2: "subseq eeg EEG_CANDIDATES"
    unfolding eeg by simp
  show "case detect_channels df include_ecg include_cm of
      (eeg_channels, ecg_channels, cm_channel) \<Rightarrow>
        set eeg_channels = set (columns df) \<inter> set EEG_CANDIDATES \<and>
        subseq eeg_channels EEG_CANDIDATES \<and>
        ecg_channels =
          (if include_ecg then [c \<leftarrow> [''X1:LEOG'', ''X2:REOG'']. c \<in> set (columns df)] else []) \<and>
        cm_channel = (if include_cm \<and> ''CM'' \<in> set (columns df) then Some ''CM'' else None)"
    using 1 2 ecg cm by (simp add: d)
next
  show "length EEG_CANDIDATES = 21" by (rule EEG_CANDIDATES_facts)
next
  show "distinct EEG_CANDIDATES" by (rule EEG_CANDIDATES_facts)
next
  assume "set (columns df) = {''Time'', ''Fz'', ''Cz'', ''X1:LEOG'', ''CM''}"
  then show "detect_channels df True True = ([''Fz'', ''Cz''], [''X1:LEOG''], Some ''CM'')"
    by (simp add: detect_channels_def EEG_CANDIDATES_def)
qed

theorem detect_channels_fixed_order_witness:
  "set (columns reversed_header_frame) = {''Time'', ''Fz'', ''Cz'', ''X1:LEOG'', ''CM''} \<and>
   columns reversed_header_frame = [''CM'', ''X1:LEOG'', ''Cz'', ''Fz'', ''Time''] \<and>
   detect_channels reversed_header_frame True True = ([''Fz'', ''Cz''], [''X1:LEOG''], Some ''CM'')"
proof -
  have h: "set (columns reversed_header_frame) = {''Time'', ''Fz'', ''Cz'', ''X1:LEOG'', ''CM''}"
    by (auto simp add: reversed_header_frame_def)
  show ?thesis
    using h detect_channels_fixed_order [of reversed_header_frame True True]
    by (simp add: reversed_header_frame_def)
qed

section \<open>Properties of the loader\<close>

lemma div_add_self_Suc: "0 < n \<Longrightarrow> (L + n) div n = Suc (L div n)"
  by simp

lemma ceil_step:
  "Suc ((L - m + m) div Suc m) = (Suc L + m) div Suc m"
proof (cases "m \<le> L")
  case True
  then have "L - m + m = L" by simp
  moreover have "(Suc L + m) div Suc m = (L + Suc m) div Suc m" by simp
  moreover have "(L + Suc m) div Suc m = Suc (L div Suc m)"
    by (rule div_add_self_Suc) simp
  ultimately show ?thesis by simp
next
  case False
  then have "L - m + m = m" by simp
  moreover have "m div Suc m = 0" by simp
  moreover have "(Suc L + m) div Suc m = 1"
  proof -
    have "Suc L + m = L + Suc m" by simp
    moreover have "(L + Suc m) div Suc m = Suc (L div Suc m)"
      by (rule div_add_self_Suc) simp
    moreover have "L div Suc m = 0" using False by simp
    ultimately show ?thesis by simp
  qed
  ultimately show ?thesis by simp
qed

lemma length_stride_slice_Suc:
  "length (stride_slice (Suc m) xs) = (length xs + m) div Suc m"
proof (induction "Suc m" xs rule: stride_slice.induct)
  case 1
  then show ?case by simp
next
  case (2 x xs)
  have "length (stride_slice (Suc m) (x # xs)) = Suc (length (stride_slice (Suc m) (drop m xs)))"
    by simp
  also have "\<dots> = Suc ((length xs - m + m) div Suc m)"
    using 2 by simp
  also have "\<dots> = (Suc (length xs) + m) div Suc m"
    by (rule ceil_step)
  finally show ?case by simp
qed

lemma length_stride_slice:
  "0 < n \<Longrightarrow> length (stride_slice n xs) = (length xs + n - 1) div n"
  using length_stride_slice_Suc [of "n - 1" xs] by simp

lemma nth_stride_slice_Suc:
  "k < length (stride_slice (Suc m) xs) \<Longrightarrow>
     k * Suc m < length xs \<and> stride_slice (Suc m) xs ! k = xs ! (k * Suc m)"
proof (induction "Suc m" xs arbitrary: k rule: stride_slice.induct)
  case 1
  then show ?case by simp
next
  case (2 x xs)
  show ?case
  proof (cases k)
    case 0
    then show ?thesis by simp
  next
    case (Suc j)
    define t where "t = j * Suc m"
    from Suc 2(2) have j: "j < length (stride_slice (Suc m) (drop m xs))" by simp
    from 2(1) [of j] j
    have a: "t < length (drop m xs)"
      and b: "stride_slice (Suc m) (drop m xs) ! j = drop m xs ! t"
      unfolding t_def by simp_all
    from a have c: "m + t < length xs" by simp
    have d: "k * Suc m = Suc (m + t)" unfolding t_def Suc by simp
    have "k * Suc m < length (x # xs)" unfolding d using c by simp
    moreover have "stride_slice (Suc m) (x # xs) ! k = (x # xs) ! (k * Suc m)"
      unfolding d using b c Suc by simp
    ultimately show ?thesis by simp
  qed
qed

lemma nth_stride_slice:
  "0 < n \<Longrightarrow> k < length (stride_slice n xs) \<Longrightarrow>
     k * n < length xs \<and> stride_slice n xs ! k = xs ! (k * n)"
  using nth_stride_slice_Suc [of k "n - 1" xs] by simp

lemma stride_slice_eq_map:
  assumes "0 < n"
  shows "stride_slice n xs = map (\<lambda>k. xs ! (k * n)) [0..<(length xs + n - 1) div n]"
  by (rule nth_equalityI) (simp_all add: length_stride_slice assms nth_stride_slice)

lemma ceiling_div_nat:
  assumes "0 < n"
  shows "nat \<lceil>real R / real n\<rceil> = (R + n - 1) div n"
proof -
  define q where "q = (R + n - 1) div n"
  define r where "r = (R + n - 1) mod n"
  have e: "R + n - 1 = q * n + r" unfolding q_def r_def by simp
  have r: "r < n" unfolding r_def using assms by simp
  have up: "R \<le> q * n" using e r assms by linarith
  have lo: "q * n < R + n" using e r assms by linarith
  have "real R \<le> real q * real n" using up by (metis of_nat_le_iff of_nat_mult)
  then have 1: "real R / real n \<le> real q" using assms by (simp add: pos_divide_le_eq)
  have "real q * real n < real R + real n" using lo by (metis of_nat_less_iff of_nat_mult of_nat_add)
  then have "(real q - 1) * real n < real R" by (simp add: algebra_simps)
  then have 2: "real q - 1 < real R / real n" using assms by (simp add: pos_less_divide_eq)
  have "\<lceil>real R / real n\<rceil> = int q"
    by (rule ceiling_unique) (use 1 2 in simp_all)
  then show ?thesis unfolding q_def by simp
qed

lemma load_data_strided:
  assumes "read_csv csv_path = Inr df" and "1 < n"
  shows "load_data read_csv csv_path n =
           (if ''Time'' \<notin> set (columns df)
            then ([], Inl (ValueError ''CSV must include a 'Time' column in seconds.''))
            else ([], Inr (df\<lparr>index := [0..<length (stride_slice (nat n) (rows df))],
                                rows := stride_slice (nat n) (rows df)\<rparr>)))"
  using assms by (simp add: load_data_def Let_def reset_index_def iloc_rows_def)

text \<open>
  C3. When the file parses to a table of \<open>R\<close> rows that has a \<^verbatim>\<open>Time\<close> column, loading
  with a stride \<open>N > 1\<close> returns the same columns and exactly the rows at the original
  positions \<open>0, N, 2N, \<dots>\<close>, in order: \<open>\<lceil>R / N\<rceil>\<close> rows, each position within the
  table, labelled \<open>0, 1, \<dots>\<close> again. Loading with stride 1 returns the table as parsed.
\<close>

theorem load_data_downsample:
  assumes "read_csv csv_path = Inr df" and "''Time'' \<in> set (columns df)"
  shows "(1 < n \<longrightarrow>
           (case load_data read_csv csv_path n of
              (msgs, Inr df') \<Rightarrow>
                msgs = [] \<and> columns df' = columns df \<and>
                rows df' = map (\<lambda>k. rows df ! (k * nat n))
                             [0..<nat \<lceil>real (length (rows df)) / real_of_int n\<rceil>] \<and>
                (\<forall>k < nat \<lceil>real (length (rows df)) / real_of_int n\<rceil>. k * nat n < length (rows df)) \<and>
                index df' = [0..<nat \<lceil>real (length (rows df)) / real_of_int n\<rceil>]
            | (msgs, Inl e) \<Rightarrow> False)) \<and>
         load_data read_csv csv_path 1 = ([], Inr df)"
proof (intro conjI impI)
  assume n: "1 < n"
  define N where "N = nat n"
  have N: "0 < N" and nN: "real_of_int n = real N" using n by (simp_all add: N_def)
  define R where "R = length (rows df)"
  have c: "nat \<lceil>real R / real_of_int n\<rceil> = (R + N - 1) div N"
    unfolding nN by (rule ceiling_div_nat [OF N])
  have len: "length (stride_slice N (rows df)) = (R + N - 1) div N"
    unfolding R_def by (rule length_stride_slice [OF N])
  have rows: "stride_slice N (rows df) = map (\<lambda>k. rows df ! (k * N)) [0..<(R + N - 1) div N]"
    unfolding R_def by (rule stride_slice_eq_map [OF N])
  have inr: "\<forall>k < (R + N - 1) div N. k * N < R"
    using nth_stride_slice [OF N, of _ "rows df"] len R_def by simp
  have "load_data read_csv csv_path n =
          ([], Inr (df\<lparr>index := [0..<length (stride_slice N (rows df))],
                         rows := stride_slice N (rows df)\<rparr>))"
    using load_data_strided [of read_csv csv_path df n] assms n by (simp add: N_def)
  then show "case load_data read_csv csv_path n of
              (msgs, Inr df') \<Rightarrow>
                msgs = [] \<and> columns df' = columns df \<and>
                rows df' = map (\<lambda>k. rows df ! (k * nat n))
                             [0..<nat \<lceil>real (length (rows df)) / real_of_int n\<rceil>] \<and>
                (\<forall>k < nat \<lceil>real (length (rows df)) / real_of_int n\<rceil>. k * nat n < length (rows df)) \<and>
                index df' = [0..<nat \<lceil>real (length (rows df)) / real_of_int n\<rceil>]
            | (msgs, Inl e) \<Rightarrow> False"
    using c len rows inr unfolding R_def [symmetric] N_def [symmetric] by simp
next
  show "load_data read_csv csv_path 1 = ([], Inr df)"
    using assms by (simp add: load_data_def)
qed

theorem load_data_downsample_witness:
  "reads_as (Inr five_row_frame) ''rec.csv'' = Inr five_row_frame \<and>
   ''Time'' \<in> set (columns five_row_frame) \<and> (1 :: int) < 2 \<and>
   load_data (reads_as (Inr five_row_frame)) ''rec.csv'' 2 =
     ([], Inr \<lparr>columns = [''Time'', ''Fz''], index = [0, 1, 2],
               rows = [[Fin 0, Fin 10], [Fin 2, NaN], [Fin 4, Fin 14]]\<rparr>) \<and>
   nat \<lceil>real (length (rows five_row_frame)) / real_of_int 2\<rceil> = 3 \<and>
   load_data (reads_as (Inr five_row_frame)) ''rec.csv'' 1 = ([], Inr five_row_frame)"
proof -
  have h1: "reads_as (Inr five_row_frame) ''rec.csv'' = Inr five_row_frame"
    by (simp add: reads_as_def)
  have h2: "''Time'' \<in> set (columns five_row_frame)"
    by (simp add: five_row_frame_def)
  have c: "nat \<lceil>real (length (rows five_row_frame)) / real_of_int 2\<rceil> = 3"
    by (simp add: five_row_frame_def)
  have u: "[0..<3] = [0, 1, 2]" by (simp add: upt_rec)
  have s: "load_data (reads_as (Inr five_row_frame)) ''rec.csv'' 2 =
     ([], Inr \<lparr>columns = [''Time'', ''Fz''], index = [0, 1, 2],
               rows = [[Fin 0, Fin 10], [Fin 2, NaN], [Fin 4, Fin 14]]\<rparr>)"
    using load_data_downsample [of "reads_as (Inr five_row_frame)" "''rec.csv''" five_row_frame 2] h1 h2 c
    by (auto simp add: u five_row_frame_def split: sum.splits prod.splits)
  show ?thesis
    using h1 h2 c s
      load_data_downsample [of "reads_as (Inr five_row_frame)" "''rec.csv''" five_row_frame 2]
    by simp
qed

section \<open>Properties of the rounding\<close>

declare grid_from.simps [simp del]

lemma grid_from_bounds:
  "e \<le> 971 \<Longrightarrow> e \<le> grid_from e a \<and> grid_from e a \<le> 971"
proof (induction e a rule: grid_from.induct)
  case (1 e a)
  show ?case
  proof (cases "971 \<le> e \<or> a < 2 powi (e + 53)")
    case True
    then show ?thesis using 1(2) by (simp add: grid_from.simps [of e a])
  next
    case False
    then have "e + 1 \<le> 971" by simp
    from 1(1) [OF False this] show ?thesis using False by (simp add: grid_from.simps [of e a])
  qed
qed

lemma grid_from_upper:
  "e \<le> 971 \<Longrightarrow> grid_from e a < 971 \<Longrightarrow> a < 2 powi (grid_from e a + 53)"
proof (induction e a rule: grid_from.induct)
  case (1 e a)
  show ?case
  proof (cases "971 \<le> e \<or> a < 2 powi (e + 53)")
    case True
    then show ?thesis using 1(2,3) by (simp add: grid_from.simps [of e a])
  next
    case False
    then have le: "e + 1 \<le> 971" by simp
    have eq: "grid_from e a = grid_from (e + 1) a" using False by (simp add: grid_from.simps [of e a])
    from 1(1) [OF False le] 1(3) show ?thesis unfolding eq by simp
  qed
qed

lemma grid_from_lower:
  "e \<le> 971 \<Longrightarrow> e < grid_from e a \<Longrightarrow> 2 powi (grid_from e a + 52) \<le> a"
proof (induction e a rule: grid_from.induct)
  case (1 e a)
  show ?case
  proof (cases "971 \<le> e \<or> a < 2 powi (e + 53)")
    case True
    then show ?thesis using 1(2,3) by (simp add: grid_from.simps [of e a])
  next
    case False
    then have le: "e + 1 \<le> 971" and big: "2 powi (e + 53) \<le> a" by simp_all
    have eq: "grid_from e a = grid_from (e + 1) a" using False by (simp add: grid_from.simps [of e a])
    show ?thesis
    proof (cases "e + 1 < grid_from (e + 1) a")
      case True
      from 1(1) [OF False le True] show ?thesis unfolding eq .
    next
      case False
      then have "grid_from (e + 1) a = e + 1" using grid_from_bounds [OF le, of a] by simp
      then show ?thesis unfolding eq using big by (simp add: add.commute)
    qed
  qed
qed

lemma grid_bounds: "- 1074 \<le> grid a" "grid a \<le> 971"
  using grid_from_bounds [of "- 1074" a] by (simp_all add: grid_def)

lemma grid_upper: "grid a < 971 \<Longrightarrow> a < 2 powi (grid a + 53)"
  using grid_from_upper [of "- 1074" a] by (simp add: grid_def)

lemma grid_lower: "- 1074 < grid a \<Longrightarrow> 2 powi (grid a + 52) \<le> a"
  using grid_from_lower [of "- 1074" a] by (simp add: grid_def)

lemma pow2_mono: "m \<le> n \<Longrightarrow> (2 :: real) powi m \<le> 2 powi n"
  by (rule power_int_increasing) simp_all

lemma pow2_pos: "0 < (2 :: real) powi m"
  by simp

lemma pow2_add: "(2 :: real) powi (m + n) = 2 powi m * 2 powi n"
  by (rule power_int_add) simp

lemma grid_mono:
  assumes "a \<le> b"
  shows "grid a \<le> grid b"
proof (rule ccontr)
  assume "\<not> grid a \<le> grid b"
  then have lt: "grid b < grid a" by simp
  then have "grid b < 971" using grid_bounds(2) [of a] by simp
  then have "b < 2 powi (grid b + 53)" by (rule grid_upper)
  also have "\<dots> \<le> 2 powi (grid a + 52)" using lt by (intro pow2_mono) simp
  also have "\<dots> \<le> a"
    using lt grid_bounds(1) [of b] by (intro grid_lower) simp
  finally show False using assms by simp
qed

lemma grid_eqI:
  assumes "- 1074 \<le> e" and "e \<le> 971"
    and up: "e < 971 \<Longrightarrow> a < 2 powi (e + 53)"
    and lo: "- 1074 < e \<Longrightarrow> 2 powi (e + 52) \<le> a"
  shows "grid a = e"
proof (rule ccontr)
  assume ne: "grid a \<noteq> e"
  show False
  proof (cases "grid a < e")
    case True
    then have "grid a < 971" using assms(2) by simp
    then have "a < 2 powi (grid a + 53)" by (rule grid_upper)
    also have "\<dots> \<le> 2 powi (e + 52)" using True by (intro pow2_mono) simp
    also have "\<dots> \<le> a" using True grid_bounds(1) [of a] by (intro lo) simp
    finally show False by simp
  next
    case False
    then have gt: "e < grid a" using ne by simp
    then have "e < 971" using grid_bounds(2) [of a] by simp
    then have "a < 2 powi (e + 53)" by (rule up)
    also have "\<dots> \<le> 2 powi (grid a + 52)" using gt by (intro pow2_mono) simp
    also have "\<dots> \<le> a" using gt assms(1) by (intro grid_lower) simp
    finally show False by simp
  qed
qed

lemma rhe_of_int [simp]: "round_half_even (of_int n) = n"
  by (simp add: round_half_even_def)

lemma rhe_ge_floor: "\<lfloor>q\<rfloor> \<le> round_half_even q"
  by (simp add: round_half_even_def Let_def)

lemma rhe_le_floor1: "round_half_even q \<le> \<lfloor>q\<rfloor> + 1"
  by (simp add: round_half_even_def Let_def)

lemma rhe_le_ceiling: "round_half_even q \<le> \<lceil>q\<rceil>"
proof (cases "q = of_int \<lfloor>q\<rfloor>")
  case True
  then have "round_half_even q = \<lfloor>q\<rfloor>" by (metis rhe_of_int)
  then show ?thesis by (simp add: floor_le_ceiling)
next
  case False
  then have "\<lceil>q\<rceil> = \<lfloor>q\<rfloor> + 1" by (simp add: ceiling_altdef)
  then show ?thesis using rhe_le_floor1 [of q] by simp
qed

lemma rhe_mono:
  assumes "p \<le> q"
  shows "round_half_even p \<le> round_half_even q"
proof (cases "\<lfloor>p\<rfloor> = \<lfloor>q\<rfloor>")
  case True
  have "p - of_int \<lfloor>q\<rfloor> \<le> q - of_int \<lfloor>q\<rfloor>" using assms by simp
  then show ?thesis unfolding round_half_even_def Let_def True by auto
next
  case False
  then have "\<lfloor>p\<rfloor> < \<lfloor>q\<rfloor>" using floor_mono [OF assms] by simp
  then have "round_half_even p \<le> \<lfloor>q\<rfloor>" using rhe_le_floor1 [of p] by simp
  then show ?thesis using rhe_ge_floor [of q] by simp
qed

lemma rhe_le_int: "q \<le> of_int n \<Longrightarrow> round_half_even q \<le> n"
  using rhe_le_ceiling [of q] by (meson ceiling_le order_trans)

lemma rhe_ge_int: "of_int n \<le> q \<Longrightarrow> n \<le> round_half_even q"
  using rhe_ge_floor [of q] by (meson le_floor_iff order_trans)

lemma round_mag_nonneg: "0 \<le> a \<Longrightarrow> 0 \<le> round_mag a"
proof -
  assume "0 \<le> a"
  then have "(of_int 0 :: real) \<le> a / 2 powi grid a" by simp
  then have "0 \<le> round_half_even (a / 2 powi grid a)" by (rule rhe_ge_int)
  then show ?thesis by (simp add: round_mag_def)
qed

lemma round_mag_mono:
  assumes "0 \<le> a" and "a \<le> b"
  shows "round_mag a \<le> round_mag b"
proof (cases "grid a = grid b")
  case True
  have "a / 2 powi grid b \<le> b / 2 powi grid b"
    using assms(2) by (simp add: divide_right_mono)
  then have "round_half_even (a / 2 powi grid b) \<le> round_half_even (b / 2 powi grid b)"
    by (rule rhe_mono)
  then show ?thesis unfolding round_mag_def True
    by (simp add: mult_right_mono)
next
  case False
  then have lt: "grid a < grid b" using grid_mono [OF assms(2)] by simp
  then have "grid a < 971" using grid_bounds(2) [of b] by simp
  then have "a < 2 powi (grid a + 53)" by (rule grid_upper)
  then have "a < 2 powi 53 * 2 powi grid a" by (simp add: pow2_add mult.commute)
  then have "a / 2 powi grid a \<le> 2 powi 53" by (simp add: pos_divide_le_eq)
  then have "a / 2 powi grid a \<le> of_int (2 ^ 53)" by simp
  then have "round_half_even (a / 2 powi grid a) \<le> 2 ^ 53" by (rule rhe_le_int)
  then have "(of_int (round_half_even (a / 2 powi grid a)) :: real) \<le> of_int (2 ^ 53)"
    by (simp only: of_int_le_iff)
  then have "round_mag a \<le> of_int (2 ^ 53) * 2 powi grid a"
    unfolding round_mag_def by (intro mult_right_mono) simp_all
  also have "\<dots> = 2 powi (grid a + 53)" by (simp add: pow2_add mult.commute)
  also have "\<dots> \<le> 2 powi (grid b + 52)" using lt by (intro pow2_mono) simp
  also have "\<dots> \<le> round_mag b"
  proof -
    have "2 powi (grid b + 52) \<le> b" using lt grid_bounds(1) [of a] by (intro grid_lower) simp
    then have "2 powi 52 * 2 powi grid b \<le> b" by (simp add: pow2_add mult.commute)
    then have "2 powi 52 \<le> b / 2 powi grid b" by (simp add: pos_le_divide_eq)
    then have "of_int (2 ^ 52) \<le> b / 2 powi grid b" by simp
    then have "2 ^ 52 \<le> round_half_even (b / 2 powi grid b)" by (rule rhe_ge_int)
    then have "(of_int (2 ^ 52) :: real) \<le> of_int (round_half_even (b / 2 powi grid b))"
      by (simp only: of_int_le_iff)
    then have "of_int (2 ^ 52) * 2 powi grid b \<le> round_mag b"
      unfolding round_mag_def by (intro mult_right_mono) simp_all
    then show ?thesis by (simp add: pow2_add mult.commute)
  qed
  finally show ?thesis .
qed

lemma pow2_nat: "0 \<le> k \<Longrightarrow> (2 :: real) powi k = of_int (2 ^ nat k)"
  by (simp add: power_int_nonneg_exp)

lemma mag_below_grid:
  assumes "grid a < 971 \<or> a < 2 ^ 1024"
  shows "a < 2 powi (grid a + 53)"
proof (cases "grid a < 971")
  case True
  then show ?thesis by (rule grid_upper)
next
  case False
  then have g: "grid a = 971" using grid_bounds(2) [of a] by simp
  have "a < 2 ^ 1024" using assms False by simp
  then show ?thesis unfolding g by simp
qed

lemma is_doubleI:
  assumes x: "x = of_int m * 2 powi e" and m: "\<bar>m\<bar> < 2 ^ 53"
    and e: "- 1074 \<le> e" "e \<le> 971"
  shows "is_double x"
proof -
  have ax: "\<bar>x\<bar> = of_int \<bar>m\<bar> * 2 powi e" unfolding x by (simp add: abs_mult)
  have mr: "(of_int \<bar>m\<bar> :: real) < 2 ^ 53" using m by (metis of_int_less_numeral_power_cancel_iff)
  have "\<bar>x\<bar> < 2 ^ 53 * 2 powi e" unfolding ax using mr by (simp add: mult_strict_right_mono)
  also have "\<dots> = 2 powi (e + 53)" by (simp add: pow2_add mult.commute)
  finally have below: "\<bar>x\<bar> < 2 powi (e + 53)" .
  also have "\<dots> \<le> 2 powi 1024" using e by (intro pow2_mono) simp
  finally have lt: "\<bar>x\<bar> < 2 ^ 1024" by simp
  define g where "g = grid \<bar>x\<bar>"
  have ge: "g \<le> e"
  proof (rule ccontr)
    assume "\<not> g \<le> e"
    then have gt: "e < g" by simp
    then have "2 powi (g + 52) \<le> \<bar>x\<bar>" unfolding g_def using e by (intro grid_lower) simp
    moreover have "(2 :: real) powi (e + 53) \<le> 2 powi (g + 52)"
      using gt by (intro pow2_mono) simp
    ultimately show False using below by simp
  qed
  define k where "k = e - g"
  have k: "0 \<le> k" and ek: "e = k + g" using ge by (simp_all add: k_def)
  have "\<bar>x\<bar> = of_int \<bar>m\<bar> * 2 powi k * 2 powi g"
    using ax by (simp add: ek pow2_add)
  then have "\<bar>x\<bar> / 2 powi g = of_int \<bar>m\<bar> * 2 powi k" by simp
  also have "\<dots> = of_int (\<bar>m\<bar> * 2 ^ nat k)" using k by (simp add: pow2_nat)
  finally have "\<bar>x\<bar> / 2 powi g = of_int (\<bar>m\<bar> * 2 ^ nat k)" .
  then have "of_int \<lfloor>\<bar>x\<bar> / 2 powi g\<rfloor> = \<bar>x\<bar> / 2 powi g"
    by (simp only: floor_of_int)
  then show ?thesis using lt unfolding is_double_def Let_def g_def by blast
qed

lemma is_doubleE:
  assumes "is_double x"
  obtains m e where "x = of_int m * 2 powi e" "\<bar>m\<bar> < 2 ^ 53" "- 1074 \<le> e" "e \<le> 971"
proof -
  define g where "g = grid \<bar>x\<bar>"
  define n where "n = \<lfloor>\<bar>x\<bar> / 2 powi g\<rfloor>"
  have lt: "\<bar>x\<bar> < 2 ^ 1024" and q: "of_int n = \<bar>x\<bar> / 2 powi g"
    using assms unfolding is_double_def Let_def g_def n_def by blast+
  have ax: "\<bar>x\<bar> = of_int n * 2 powi g" using q by simp
  have "\<bar>x\<bar> < 2 powi (g + 53)" unfolding g_def using lt by (intro mag_below_grid) simp
  then have "of_int n * (2 :: real) powi g < 2 ^ 53 * 2 powi g"
    unfolding ax by (simp add: pow2_add mult.commute)
  then have "(of_int n :: real) < 2 ^ 53" by (simp only: mult_less_cancel_right_pos [OF pow2_pos])
  then have n53: "n < 2 ^ 53" by (metis of_int_less_numeral_power_cancel_iff)
  have "0 \<le> \<bar>x\<bar> / 2 powi g" by simp
  then have n0: "0 \<le> n" unfolding n_def by simp
  define m where "m = (if x < 0 then - n else n)"
  have "x = of_int m * 2 powi g"
  proof (cases "x < 0")
    case True
    then have "x = - \<bar>x\<bar>" by simp
    then show ?thesis unfolding m_def using True ax by simp
  next
    case False
    then have "x = \<bar>x\<bar>" by simp
    then show ?thesis unfolding m_def using False ax by simp
  qed
  moreover have "\<bar>m\<bar> < 2 ^ 53" using n0 n53 by (simp add: m_def)
  moreover have "- 1074 \<le> g" "g \<le> 971" unfolding g_def by (rule grid_bounds)+
  ultimately show ?thesis by (rule that)
qed

lemma round_mag_exact:
  assumes "is_double a" and "0 \<le> a"
  shows "round_mag a = a"
proof -
  have a: "\<bar>a\<bar> = a" using assms(2) by simp
  define n where "n = \<lfloor>a / 2 powi grid a\<rfloor>"
  from assms(1) have "of_int \<lfloor>\<bar>a\<bar> / 2 powi grid \<bar>a\<bar>\<rfloor> = \<bar>a\<bar> / 2 powi grid \<bar>a\<bar>"
    unfolding is_double_def Let_def by (rule conjunct2)
  then have q: "a / 2 powi grid a = of_int n" unfolding a n_def by (rule sym)
  have "round_mag a = of_int n * 2 powi grid a"
    unfolding round_mag_def q by simp
  also have "\<dots> = a / 2 powi grid a * 2 powi grid a" by (simp only: q)
  also have "\<dots> = a" by simp
  finally show ?thesis .
qed

lemma is_double_uminus: "is_double (- x) = is_double x"
  by (simp add: is_double_def)

lemma is_double_abs: "is_double \<bar>x\<bar> = is_double x"
  by (simp add: is_double_def)

lemma round64_exact:
  assumes "is_double x"
  shows "round64 x = Fin x"
proof -
  have d: "is_double \<bar>x\<bar>" using assms by (simp add: is_double_abs)
  have r: "round_mag \<bar>x\<bar> = \<bar>x\<bar>" by (rule round_mag_exact [OF d]) simp
  have "\<bar>x\<bar> < 2 ^ 1024" using assms by (simp add: is_double_def)
  then show ?thesis unfolding round64_def r Let_def by auto
qed

lemma is_double_of_int: "\<bar>m\<bar> < 2 ^ 53 \<Longrightarrow> is_double (of_int m)"
  by (rule is_doubleI [of _ m 0]) simp_all

lemma is_double_simple [simp]:
  "is_double 0" "is_double 1" "is_double (- 1)" "is_double 2" "is_double 1000"
  using is_double_of_int [of 0] is_double_of_int [of 1] is_double_of_int [of "- 1"]
    is_double_of_int [of 2] is_double_of_int [of 1000]
  by simp_all

lemma round_mag_is_double:
  assumes "0 \<le> a" and fin: "round_mag a < 2 ^ 1024"
  shows "is_double (round_mag a)"
proof -
  define g where "g = grid a"
  define k where "k = round_half_even (a / 2 powi g)"
  have v: "round_mag a = of_int k * 2 powi g" by (simp add: round_mag_def k_def g_def)
  have g: "- 1074 \<le> g" "g \<le> 971" unfolding g_def by (rule grid_bounds)+
  have "(of_int 0 :: real) \<le> a / 2 powi g" using assms(1) by simp
  then have k0: "0 \<le> k" unfolding k_def by (rule rhe_ge_int)
  have k53: "k \<le> 2 ^ 53"
  proof (cases "g < 971")
    case True
    then have "a < 2 powi (g + 53)" unfolding g_def by (rule grid_upper)
    then have "a < 2 powi 53 * 2 powi g" by (simp add: pow2_add mult.commute)
    then have "a / 2 powi g \<le> 2 powi 53" by (simp add: pos_divide_le_eq)
    then have "a / 2 powi g \<le> of_int (2 ^ 53)" by simp
    then show ?thesis unfolding k_def by (rule rhe_le_int)
  next
    case False
    then have g971: "g = 971" using g by simp
    have "of_int k * (2 :: real) powi 971 < 2 ^ 53 * 2 powi 971"
      using fin unfolding v g971 by simp
    then have "(of_int k :: real) < 2 ^ 53"
      by (simp only: mult_less_cancel_right_pos [OF pow2_pos])
    then have "k < 2 ^ 53" by (metis of_int_less_numeral_power_cancel_iff)
    then show ?thesis by simp
  qed
  show ?thesis
  proof (cases "k < 2 ^ 53")
    case True
    then have "\<bar>k\<bar> < 2 ^ 53" using k0 by simp
    then show ?thesis using v g by (intro is_doubleI [of _ k g]) simp_all
  next
    case False
    then have k: "k = 2 ^ 53" using k53 by simp
    have "g \<noteq> 971"
    proof
      assume "g = 971"
      then have "round_mag a = 2 ^ 53 * 2 powi 971" using v k by simp
      then show False using fin by simp
    qed
    then have g1: "g + 1 \<le> 971" using g by simp
    have "round_mag a = 2 ^ 53 * 2 powi g" using v k by simp
    also have "\<dots> = of_int (2 ^ 52) * 2 powi (g + 1)" by (simp add: pow2_add)
    finally have "round_mag a = of_int (2 ^ 52) * 2 powi (g + 1)" .
    then show ?thesis using g g1 by (intro is_doubleI [of _ "2 ^ 52" "g + 1"]) simp_all
  qed
qed

lemma round64_nonneg:
  assumes "0 \<le> x"
  shows "(round64 x = PosInf \<and> 2 ^ 1024 \<le> round_mag x) \<or>
         (round64 x = Fin (round_mag x) \<and> round_mag x < 2 ^ 1024 \<and>
          is_double (round_mag x) \<and> 0 \<le> round_mag x)"
proof (cases "2 ^ 1024 \<le> round_mag x")
  case True
  then have "round64 x = PosInf" using assms by (simp add: round64_def Let_def)
  then show ?thesis using True by simp
next
  case False
  then have lt: "round_mag x < 2 ^ 1024" by simp
  then have "round64 x = Fin (round_mag x)" using assms by (simp add: round64_def Let_def)
  then show ?thesis
    using lt round_mag_is_double [OF assms lt] round_mag_nonneg [OF assms] by simp
qed

lemma round64_neg:
  assumes "x < 0"
  shows "(round64 x = NegInf \<and> 2 ^ 1024 \<le> round_mag (- x)) \<or>
         (round64 x = Fin (- round_mag (- x)) \<and> round_mag (- x) < 2 ^ 1024 \<and>
          is_double (round_mag (- x)) \<and> 0 \<le> round_mag (- x))"
proof (cases "2 ^ 1024 \<le> round_mag (- x)")
  case True
  have a: "\<bar>x\<bar> = - x" using assms by simp
  have "round64 x = NegInf" using assms True by (simp add: round64_def Let_def a)
  then show ?thesis using True by simp
next
  case False
  have a: "\<bar>x\<bar> = - x" using assms by simp
  have p: "0 \<le> - x" using assms by simp
  from False have lt: "round_mag (- x) < 2 ^ 1024" by simp
  then have "round64 x = Fin (- round_mag (- x))" using assms by (simp add: round64_def Let_def a)
  then show ?thesis
    using lt round_mag_is_double [OF p lt] round_mag_nonneg [OF p] by simp
qed

lemma round64_mono:
  assumes "x \<le> y"
  shows "fle (round64 x) (round64 y)"
proof (cases "0 \<le> x")
  case True
  then have y0: "0 \<le> y" using assms by simp
  have m: "round_mag x \<le> round_mag y" by (rule round_mag_mono [OF True assms])
  show ?thesis
    using round64_nonneg [OF True] round64_nonneg [OF y0] m by auto
next
  case False
  then have x0: "x < 0" by simp
  show ?thesis
  proof (cases "0 \<le> y")
    case True
    show ?thesis
      using round64_neg [OF x0] round64_nonneg [OF True] by auto
  next
    case False
    then have y0: "y < 0" by simp
    have "round_mag (- y) \<le> round_mag (- x)"
      using assms y0 by (intro round_mag_mono) simp_all
    then show ?thesis
      using round64_neg [OF x0] round64_neg [OF y0] by auto
  qed
qed

lemma grid_top: "grid (2 ^ 1024) = 971"
  by (rule grid_eqI) simp_all

lemma round_mag_top: "round_mag (2 ^ 1024) = 2 ^ 1024"
proof -
  have "(2 :: real) ^ 1024 / 2 powi 971 = of_int (2 ^ 53)" by simp
  then have "round_half_even (2 ^ 1024 / 2 powi 971) = 2 ^ 53" by (simp only: rhe_of_int)
  then show ?thesis unfolding round_mag_def grid_top by simp
qed

lemma round_mag_big:
  assumes "2 ^ 1024 \<le> a"
  shows "2 ^ 1024 \<le> round_mag a"
proof -
  have "round_mag (2 ^ 1024) \<le> round_mag a"
    by (rule round_mag_mono) (use assms in simp_all)
  then show ?thesis unfolding round_mag_top .
qed

lemma round64_overflow:
  assumes "2 ^ 1024 \<le> x"
  shows "round64 x = PosInf"
proof -
  have "0 \<le> x" using assms by (rule order_trans [rotated]) simp
  then have a: "\<bar>x\<bar> = x" and n: "\<not> x < 0" by simp_all
  show ?thesis using round_mag_big [OF assms] n by (simp add: round64_def Let_def a)
qed

lemma is_double_twice:
  assumes "is_double d" and "\<bar>2 * d\<bar> < 2 ^ 1024"
  shows "is_double (2 * d)"
proof -
  from assms(1) obtain m e where d: "d = of_int m * 2 powi e" and m: "\<bar>m\<bar> < 2 ^ 53"
    and e: "- 1074 \<le> e" "e \<le> 971"
    by (rule is_doubleE)
  show ?thesis
  proof (cases "e < 971")
    case True
    have "2 * d = of_int m * 2 powi (e + 1)" unfolding d by (simp add: pow2_add)
    then show ?thesis using m e True by (intro is_doubleI [of _ m "e + 1"]) simp_all
  next
    case False
    then have e971: "e = 971" using e by simp
    have "\<bar>2 * d\<bar> = of_int \<bar>m\<bar> * 2 powi 972" unfolding d e971 by (simp add: abs_mult)
    then have "of_int \<bar>m\<bar> * (2 :: real) powi 972 < 2 ^ 52 * 2 powi 972"
      using assms(2) by simp
    then have "(of_int \<bar>m\<bar> :: real) < 2 ^ 52"
      by (simp only: mult_less_cancel_right_pos [OF pow2_pos])
    then have "\<bar>m\<bar> < 2 ^ 52" by (metis of_int_less_numeral_power_cancel_iff)
    then have "\<bar>2 * m\<bar> < 2 ^ 53" by simp
    moreover have "2 * d = of_int (2 * m) * 2 powi 971" unfolding d e971 by simp
    ultimately show ?thesis by (intro is_doubleI [of _ "2 * m" 971]) simp_all
  qed
qed

lemma round64_twice:
  assumes "is_double d" and "0 \<le> d" and "round64 (2 * d) = Fin t"
  shows "t = 2 * d"
proof (cases "2 * d < 2 ^ 1024")
  case True
  then have "\<bar>2 * d\<bar> < 2 ^ 1024" using assms(2) by simp
  then have "is_double (2 * d)" by (rule is_double_twice [OF assms(1)])
  then have "round64 (2 * d) = Fin (2 * d)" by (rule round64_exact)
  then show ?thesis using assms(3) by simp
next
  case False
  then have "round64 (2 * d) = PosInf" by (intro round64_overflow) simp
  then show ?thesis using assms(3) by simp
qed

lemma double_multiple:
  assumes "is_double a"
  shows "\<exists>M :: int. a = of_int M * 2 powi (- 1074)"
proof -
  from assms obtain m e where a: "a = of_int m * 2 powi e" and e: "- 1074 \<le> e"
    by (rule is_doubleE)
  define k where "k = e + 1074"
  have k: "0 \<le> k" and ek: "e = k + (- 1074)" using e by (simp_all add: k_def)
  have "a = of_int m * (2 powi k * 2 powi (- 1074))"
    unfolding a by (subst ek) (simp only: pow2_add)
  also have "\<dots> = of_int (m * 2 ^ nat k) * 2 powi (- 1074)"
    using k by (simp add: pow2_nat)
  finally show ?thesis by blast
qed

lemma double_gap:
  assumes "is_double a" and "is_double b" and "b < a"
  shows "2 powi (- 1074) \<le> a - b"
proof -
  obtain M where a: "a = of_int M * 2 powi (- 1074)" using double_multiple [OF assms(1)] by blast
  obtain N where b: "b = of_int N * 2 powi (- 1074)" using double_multiple [OF assms(2)] by blast
  have "of_int N * (2 :: real) powi (- 1074) < of_int M * 2 powi (- 1074)"
    using assms(3) unfolding a b .
  then have "(of_int N :: real) < of_int M"
    by (simp only: mult_less_cancel_right_pos [OF pow2_pos])
  then have "N < M" by simp
  then have "1 \<le> M - N" by simp
  then have "(1 :: real) \<le> of_int (M - N)" by (simp only: of_int_1_le_iff)
  then have "1 * (2 :: real) powi (- 1074) \<le> of_int (M - N) * 2 powi (- 1074)"
    by (intro mult_right_mono) simp_all
  also have "\<dots> = a - b" unfolding a b by (simp add: left_diff_distrib)
  finally show ?thesis by simp
qed

lemma is_double_min_subnormal: "is_double (2 powi (- 1074))"
  by (rule is_doubleI [of _ 1 "- 1074"]) simp_all

lemma round64_diff_pos:
  assumes "is_double a" and "is_double b" and "b < a"
  shows "round64 (a - b) = PosInf \<or>
         (\<exists>d. round64 (a - b) = Fin d \<and> 0 < d \<and> is_double d)"
proof -
  have gap: "2 powi (- 1074) \<le> a - b" by (rule double_gap [OF assms])
  have u: "round_mag (2 powi (- 1074)) = 2 powi (- 1074)"
    by (rule round_mag_exact [OF is_double_min_subnormal]) simp
  have "round_mag (2 powi (- 1074)) \<le> round_mag (a - b)"
    using gap by (intro round_mag_mono) simp_all
  then have pos: "0 < round_mag (a - b)" unfolding u
    by (rule less_le_trans [rotated]) simp
  have "0 \<le> a - b" using assms(3) by simp
  from round64_nonneg [OF this] show ?thesis using pos by auto
qed

lemma round64_0 [simp]: "round64 0 = Fin 0"
  by (rule round64_exact) simp

section \<open>Properties of the normalisation\<close>

lemma fle_refl: "a \<noteq> NaN \<Longrightarrow> fle a a"
  by (cases a) simp_all

lemma fle_total: "a \<noteq> NaN \<Longrightarrow> b \<noteq> NaN \<Longrightarrow> fle a b \<or> fle b a"
  by (cases a; cases b) auto

lemma fle_trans: "fle a b \<Longrightarrow> fle b c \<Longrightarrow> fle a c"
  by (cases a; cases b; cases c) auto

lemma fle_antisym: "fle a b \<Longrightarrow> fle b a \<Longrightarrow> a = b"
  by (cases a; cases b) auto

lemma fle_not_nan: "fle a b \<Longrightarrow> a \<noteq> NaN \<and> b \<noteq> NaN"
  by (cases a; cases b) auto

lemma set_dropna: "set (dropna s) = {v \<in> set s. v \<noteq> NaN}"
  by (auto simp add: dropna_def isna_def)

lemma fold_fmin_least:
  assumes "\<forall>w \<in> set (v # vs). w \<noteq> NaN"
  shows "fold fmin vs v \<in> set (v # vs) \<and> (\<forall>w \<in> set (v # vs). fle (fold fmin vs v) w)"
  using assms
proof (induction vs arbitrary: v)
  case Nil
  then show ?case by (simp add: fle_refl)
next
  case (Cons u vs)
  have nn: "\<forall>w \<in> set (fmin u v # vs). w \<noteq> NaN"
    using Cons.prems by (simp add: fmin_def)
  from Cons.IH [OF nn]
  have mem: "fold fmin vs (fmin u v) \<in> set (fmin u v # vs)"
    and low: "\<forall>w \<in> set (fmin u v # vs). fle (fold fmin vs (fmin u v)) w" by simp_all
  have le_v: "fle (fmin u v) v" and le_u: "fle (fmin u v) u"
    using Cons.prems fle_total [of v u] by (auto simp add: fmin_def fle_refl)
  have pick: "set (fmin u v # vs) \<subseteq> set (v # u # vs)" by (auto simp add: fmin_def)
  have m: "fle (fold fmin vs (fmin u v)) (fmin u v)" using low by simp
  have "fold fmin (u # vs) v \<in> set (v # u # vs)"
    using mem pick by (simp only: fold_simps) blast
  moreover have "\<forall>w \<in> set (v # u # vs). fle (fold fmin (u # vs) v) w"
    using low fle_trans [OF m le_v] fle_trans [OF m le_u] by simp
  ultimately show ?case by blast
qed

lemma fold_fmax_greatest:
  assumes "\<forall>w \<in> set (v # vs). w \<noteq> NaN"
  shows "fold fmax vs v \<in> set (v # vs) \<and> (\<forall>w \<in> set (v # vs). fle w (fold fmax vs v))"
  using assms
proof (induction vs arbitrary: v)
  case Nil
  then show ?case by (simp add: fle_refl)
next
  case (Cons u vs)
  have nn: "\<forall>w \<in> set (fmax u v # vs). w \<noteq> NaN"
    using Cons.prems by (simp add: fmax_def)
  from Cons.IH [OF nn]
  have mem: "fold fmax vs (fmax u v) \<in> set (fmax u v # vs)"
    and low: "\<forall>w \<in> set (fmax u v # vs). fle w (fold fmax vs (fmax u v))" by simp_all
  have le_v: "fle v (fmax u v)" and le_u: "fle u (fmax u v)"
    using Cons.prems fle_total [of v u] by (auto simp add: fmax_def fle_refl)
  have pick: "set (fmax u v # vs) \<subseteq> set (v # u # vs)" by (auto simp add: fmax_def)
  have m: "fle (fmax u v) (fold fmax vs (fmax u v))" using low by simp
  have "fold fmax (u # vs) v \<in> set (v # u # vs)"
    using mem pick by (simp only: fold_simps) blast
  moreover have "\<forall>w \<in> set (v # u # vs). fle w (fold fmax (u # vs) v)"
    using low fle_trans [OF le_v m] fle_trans [OF le_u m] by simp
  ultimately show ?case by blast
qed

lemma series_min_least:
  assumes "dropna s \<noteq> []"
  shows "series_min s \<in> set s" and "series_min s \<noteq> NaN"
    and "\<forall>w \<in> set s. w \<noteq> NaN \<longrightarrow> fle (series_min s) w"
proof -
  obtain v vs where d: "dropna s = v # vs" using assms by (cases "dropna s") auto
  have nn: "\<forall>w \<in> set (v # vs). w \<noteq> NaN"
    using set_dropna [of s] unfolding d by blast
  have sm: "series_min s = fold fmin vs v" by (simp add: series_min_def d)
  from fold_fmin_least [OF nn]
  have mem: "series_min s \<in> set (dropna s)"
    and low: "\<forall>w \<in> set (dropna s). fle (series_min s) w"
    unfolding sm d by simp_all
  show "series_min s \<in> set s" "series_min s \<noteq> NaN"
    using mem by (simp_all add: set_dropna)
  show "\<forall>w \<in> set s. w \<noteq> NaN \<longrightarrow> fle (series_min s) w"
    using low by (simp add: set_dropna)
qed

lemma series_max_greatest:
  assumes "dropna s \<noteq> []"
  shows "series_max s \<in> set s" and "series_max s \<noteq> NaN"
    and "\<forall>w \<in> set s. w \<noteq> NaN \<longrightarrow> fle w (series_max s)"
proof -
  obtain v vs where d: "dropna s = v # vs" using assms by (cases "dropna s") auto
  have nn: "\<forall>w \<in> set (v # vs). w \<noteq> NaN"
    using set_dropna [of s] unfolding d by blast
  have sm: "series_max s = fold fmax vs v" by (simp add: series_max_def d)
  from fold_fmax_greatest [OF nn]
  have mem: "series_max s \<in> set (dropna s)"
    and low: "\<forall>w \<in> set (dropna s). fle w (series_max s)"
    unfolding sm d by simp_all
  show "series_max s \<in> set s" "series_max s \<noteq> NaN"
    using mem by (simp_all add: set_dropna)
  show "\<forall>w \<in> set s. w \<noteq> NaN \<longrightarrow> fle w (series_max s)"
    using low by (simp add: set_dropna)
qed

lemma dropna_nonempty: "m \<in> set s \<Longrightarrow> m \<noteq> NaN \<Longrightarrow> dropna s \<noteq> []"
  using set_dropna [of s] by (metis (mono_tags, lifting) empty_iff list.set(1) mem_Collect_eq)

lemma series_min_eqI:
  assumes "m \<in> set s" and "m \<noteq> NaN" and "\<forall>w \<in> set s. w \<noteq> NaN \<longrightarrow> fle m w"
  shows "series_min s = m"
proof -
  have ne: "dropna s \<noteq> []" by (rule dropna_nonempty [OF assms(1,2)])
  have "fle (series_min s) m" using series_min_least(3) [OF ne] assms(1,2) by blast
  moreover have "fle m (series_min s)"
    using series_min_least(1,2) [OF ne] assms(3) by blast
  ultimately show ?thesis by (rule fle_antisym)
qed

lemma series_max_eqI:
  assumes "m \<in> set s" and "m \<noteq> NaN" and "\<forall>w \<in> set s. w \<noteq> NaN \<longrightarrow> fle w m"
  shows "series_max s = m"
proof -
  have ne: "dropna s \<noteq> []" by (rule dropna_nonempty [OF assms(1,2)])
  have a: "fle m (series_max s)" using series_max_greatest(3) [OF ne] assms(1,2) by blast
  have b: "fle (series_max s) m"
    using series_max_greatest(1,2) [OF ne] assms(3) by blast
  show ?thesis by (rule fle_antisym [OF b a])
qed

lemma series_min_empty: "dropna s = [] \<Longrightarrow> series_min s = NaN"
  by (simp add: series_min_def)

lemma series_max_empty: "dropna s = [] \<Longrightarrow> series_max s = NaN"
  by (simp add: series_max_def)

lemma round64_not_nan: "round64 x \<noteq> NaN"
  by (simp add: round64_def Let_def)

lemma round64_Fin_is_double:
  assumes "round64 x = Fin y"
  shows "is_double y"
proof (cases "0 \<le> x")
  case True
  from round64_nonneg [OF True] assms show ?thesis by auto
next
  case False
  then have "x < 0" by simp
  from round64_neg [OF this] assms show ?thesis by (auto simp add: is_double_uminus)
qed

lemma round64_between:
  assumes "lo \<le> x" and "x \<le> hi" and "is_double lo" and "is_double hi"
  shows "\<exists>r. round64 x = Fin r \<and> lo \<le> r \<and> r \<le> hi \<and> is_double r"
proof -
  have a: "fle (Fin lo) (round64 x)"
    using round64_mono [OF assms(1)] by (simp add: round64_exact [OF assms(3)])
  have b: "fle (round64 x) (Fin hi)"
    using round64_mono [OF assms(2)] by (simp add: round64_exact [OF assms(4)])
  obtain r where r: "round64 x = Fin r"
    using a b by (cases "round64 x") simp_all
  have "is_double r" using r by (rule round64_Fin_is_double)
  then show ?thesis using a b r by simp
qed

lemma fmul_zero: "fmul v (Fin 0) = (case v of Fin x \<Rightarrow> Fin 0 | _ \<Rightarrow> NaN)"
  by (cases v) simp_all

lemma minmax_normalize_degenerate:
  assumes "dropna s = [] \<or> feq (series_max s) (series_min s)"
  shows "minmax_normalize s = map (\<lambda>v. case v of Fin x \<Rightarrow> Fin 0 | _ \<Rightarrow> NaN) s"
proof -
  have "isna (series_min s) \<or> isna (series_max s) \<or> feq (series_max s) (series_min s)"
    using assms by (auto simp add: isna_def series_min_empty)
  then have "minmax_normalize s = series_mul s (Fin 0)"
    by (simp add: minmax_normalize_def Let_def)
  then show ?thesis by (simp add: series_mul_def fmul_zero)
qed

lemma minmax_normalize_regular:
  assumes "dropna s \<noteq> []" and "series_max s \<noteq> series_min s"
  shows "minmax_normalize s =
           map (\<lambda>v. fsub (fdiv (fmul (Fin 2) (fsub v (series_min s)))
                              (fsub (series_max s) (series_min s))) (Fin 1)) s"
proof -
  have "\<not> isna (series_min s)" "\<not> isna (series_max s)"
    using series_min_least(2) [OF assms(1)] series_max_greatest(2) [OF assms(1)]
    by (simp_all add: isna_def)
  moreover have "\<not> feq (series_max s) (series_min s)" using assms(2) by (simp add: feq_def)
  ultimately show ?thesis
    by (simp add: minmax_normalize_def Let_def series_sub_def series_div_def scalar_mul_def
        comp_def)
qed

lemma constant_min_max:
  assumes "m \<in> set s" and "m \<noteq> NaN" and "\<forall>v \<in> set s. v = NaN \<or> v = m"
  shows "series_min s = m" and "series_max s = m"
proof -
  have "\<forall>w \<in> set s. w \<noteq> NaN \<longrightarrow> fle m w" "\<forall>w \<in> set s. w \<noteq> NaN \<longrightarrow> fle w m"
    using assms(2,3) fle_refl by blast+
  then show "series_min s = m" "series_max s = m"
    using assms(1,2) by (simp_all add: series_min_eqI series_max_eqI)
qed

lemma distinct_min_max:
  assumes "a \<in> set s" and "b \<in> set s" and "a \<noteq> NaN" and "b \<noteq> NaN" and "a \<noteq> b"
  shows "dropna s \<noteq> []" and "series_max s \<noteq> series_min s"
proof -
  show ne: "dropna s \<noteq> []" by (rule dropna_nonempty [OF assms(1,3)])
  show "series_max s \<noteq> series_min s"
  proof
    assume eq: "series_max s = series_min s"
    have "fle (series_min s) a" "fle a (series_min s)"
      using series_min_least(3) [OF ne] series_max_greatest(3) [OF ne] assms(1,3)
      unfolding eq by blast+
    then have "series_min s = a" by (rule fle_antisym)
    moreover have "fle (series_min s) b" "fle b (series_min s)"
      using series_min_least(3) [OF ne] series_max_greatest(3) [OF ne] assms(2,4)
      unfolding eq by blast+
    then have "series_min s = b" by (rule fle_antisym)
    ultimately show False using assms(5) by simp
  qed
qed

text \<open>
  C2, as stated, fails: a series of two missing values is normalised to two missing
  values, not to two zeros.
\<close>

theorem minmax_normalize_all_missing_counterexample:
  "set all_missing_series \<subseteq> {NaN} \<and>
   length (minmax_normalize all_missing_series) = length all_missing_series \<and>
   minmax_normalize all_missing_series = [NaN, NaN] \<and>
   minmax_normalize all_missing_series \<noteq> [Fin 0, Fin 0]"
  by (simp add: all_missing_series_def minmax_normalize_def series_min_def series_max_def
      dropna_def isna_def series_mul_def)

text \<open>
  C2, amended. For every series that is empty, holds only missing values, or whose
  non-missing values are all the same (maximum equal to minimum), normalisation returns a
  series of the same length in which every finite entry is 0 and every missing or
  infinite entry is missing; a series of finite values only becomes all zeros.
\<close>

theorem minmax_normalize_degenerate_zero:
  assumes "s = [] \<or> set s \<subseteq> {NaN} \<or> (\<exists>m \<in> set s. m \<noteq> NaN \<and> (\<forall>v \<in> set s. v = NaN \<or> v = m))"
  shows "length (minmax_normalize s) = length s \<and>
         (\<forall>i < length s.
            minmax_normalize s ! i = (case s ! i of Fin x \<Rightarrow> Fin 0 | _ \<Rightarrow> NaN)) \<and>
         ((\<forall>v \<in> set s. \<exists>x. v = Fin x) \<longrightarrow>
            minmax_normalize s = replicate (length s) (Fin 0))"
proof -
  have "dropna s = [] \<or> feq (series_max s) (series_min s)"
  proof (cases "\<exists>m \<in> set s. m \<noteq> NaN \<and> (\<forall>v \<in> set s. v = NaN \<or> v = m)")
    case True
    then obtain m where m: "m \<in> set s" "m \<noteq> NaN" "\<forall>v \<in> set s. v = NaN \<or> v = m" by blast
    have "series_min s = m" "series_max s = m" by (rule constant_min_max [OF m])+
    then show ?thesis using m(2) by (simp add: feq_def)
  next
    case False
    then have "s = [] \<or> set s \<subseteq> {NaN}" using assms by blast
    then have "set (dropna s) = {}" unfolding set_dropna by auto
    then show ?thesis by simp
  qed
  then have f: "minmax_normalize s = map (\<lambda>v. case v of Fin x \<Rightarrow> Fin 0 | _ \<Rightarrow> NaN) s"
    by (rule minmax_normalize_degenerate)
  have len: "length (minmax_normalize s) = length s" by (simp add: f)
  have each: "\<forall>i < length s.
            minmax_normalize s ! i = (case s ! i of Fin x \<Rightarrow> Fin 0 | _ \<Rightarrow> NaN)"
    by (simp add: f)
  have full: "minmax_normalize s = replicate (length s) (Fin 0)"
    if fin: "\<forall>v \<in> set s. \<exists>x. v = Fin x"
  proof (rule nth_equalityI)
    show "length (minmax_normalize s) = length (replicate (length s) (Fin 0))"
      by (simp add: len)
  next
    fix i assume "i < length (minmax_normalize s)"
    then have i: "i < length s" by (simp add: len)
    then obtain x where "s ! i = Fin x" using fin by (metis nth_mem)
    then show "minmax_normalize s ! i = replicate (length s) (Fin 0) ! i"
      using each i by simp
  qed
  show ?thesis using len each full by blast
qed

theorem minmax_normalize_degenerate_zero_witness:
  "(\<exists>m \<in> set constant_gapped_series. m \<noteq> NaN \<and>
      (\<forall>v \<in> set constant_gapped_series. v = NaN \<or> v = m)) \<and>
   minmax_normalize constant_gapped_series = [Fin 0, NaN, Fin 0] \<and>
   (\<exists>m \<in> set constant_infinite_series. m \<noteq> NaN \<and>
      (\<forall>v \<in> set constant_infinite_series. v = NaN \<or> v = m)) \<and>
   minmax_normalize constant_infinite_series = [NaN, NaN]"
proof -
  have h: "\<exists>m \<in> set constant_gapped_series. m \<noteq> NaN \<and>
      (\<forall>v \<in> set constant_gapped_series. v = NaN \<or> v = m)"
    by (simp add: constant_gapped_series_def)
  have h': "\<exists>m \<in> set constant_infinite_series. m \<noteq> NaN \<and>
      (\<forall>v \<in> set constant_infinite_series. v = NaN \<or> v = m)"
    by (simp add: constant_infinite_series_def)
  have len: "length constant_gapped_series = 3" "length constant_infinite_series = 2"
    by (simp_all add: constant_gapped_series_def constant_infinite_series_def)
  have a: "minmax_normalize constant_gapped_series = [Fin 0, NaN, Fin 0]"
  proof (rule nth_equalityI)
    show "length (minmax_normalize constant_gapped_series) = length [Fin 0, NaN, Fin 0]"
      using minmax_normalize_degenerate_zero [of constant_gapped_series] h len by simp
  next
    fix i assume "i < length (minmax_normalize constant_gapped_series)"
    then have "i < 3" using minmax_normalize_degenerate_zero [of constant_gapped_series] h len by simp
    then have "i = 0 \<or> i = 1 \<or> i = 2" by arith
    then show "minmax_normalize constant_gapped_series ! i = [Fin 0, NaN, Fin 0] ! i"
      using minmax_normalize_degenerate_zero [of constant_gapped_series] h len
      by (auto simp add: constant_gapped_series_def)
  qed
  have b: "minmax_normalize constant_infinite_series = [NaN, NaN]"
  proof (rule nth_equalityI)
    show "length (minmax_normalize constant_infinite_series) = length [NaN, NaN]"
      using minmax_normalize_degenerate_zero [of constant_infinite_series] h' len by simp
  next
    fix i assume "i < length (minmax_normalize constant_infinite_series)"
    then have "i < 2" using minmax_normalize_degenerate_zero [of constant_infinite_series] h' len by simp
    then have "i = 0 \<or> i = 1" by arith
    then show "minmax_normalize constant_infinite_series ! i = [NaN, NaN] ! i"
      using minmax_normalize_degenerate_zero [of constant_infinite_series] h' len
      by (auto simp add: constant_infinite_series_def)
  qed
  show ?thesis using h h' a b by blast
qed

lemma formula_keeps_nan:
  "fsub (fdiv (fmul (Fin 2) (fsub NaN mn)) d) (Fin 1) = NaN"
  by simp

text \<open>
  C10. For every series with two different non-missing values, the minimum and the
  maximum that normalisation uses are the least and the greatest of the non-missing values
  only; the result has the length of the input, every entry is mapped by the formula
  \<open>2 * (v - min) / (max - min) - 1\<close> evaluated in double arithmetic, and every missing
  entry stays missing.
\<close>

theorem minmax_normalize_keeps_missing:
  assumes "a \<in> set s" and "b \<in> set s" and "a \<noteq> NaN" and "b \<noteq> NaN" and "a \<noteq> b"
  shows "series_min s \<in> set s \<and> series_min s \<noteq> NaN \<and>
         (\<forall>w \<in> set s. w \<noteq> NaN \<longrightarrow> fle (series_min s) w) \<and>
         series_max s \<in> set s \<and> series_max s \<noteq> NaN \<and>
         (\<forall>w \<in> set s. w \<noteq> NaN \<longrightarrow> fle w (series_max s)) \<and>
         length (minmax_normalize s) = length s \<and>
         (\<forall>i < length s.
            minmax_normalize s ! i =
              fsub (fdiv (fmul (Fin 2) (fsub (s ! i) (series_min s)))
                         (fsub (series_max s) (series_min s))) (Fin 1)) \<and>
         (\<forall>i < length s. s ! i = NaN \<longrightarrow> minmax_normalize s ! i = NaN)"
proof -
  have ne: "dropna s \<noteq> []" and d: "series_max s \<noteq> series_min s"
    by (rule distinct_min_max [OF assms])+
  have f: "minmax_normalize s =
           map (\<lambda>v. fsub (fdiv (fmul (Fin 2) (fsub v (series_min s)))
                              (fsub (series_max s) (series_min s))) (Fin 1)) s"
    by (rule minmax_normalize_regular [OF ne d])
  have len: "length (minmax_normalize s) = length s" by (simp add: f)
  have each: "\<forall>i < length s.
            minmax_normalize s ! i =
              fsub (fdiv (fmul (Fin 2) (fsub (s ! i) (series_min s)))
                         (fsub (series_max s) (series_min s))) (Fin 1)"
    by (simp add: f)
  have nan: "\<forall>i < length s. s ! i = NaN \<longrightarrow> minmax_normalize s ! i = NaN"
    using each by (simp add: formula_keeps_nan)
  show ?thesis
    using series_min_least [OF ne] series_max_greatest [OF ne] len each nan by blast
qed

lemma is_double_half: "is_double (1 / 2)"
  by (rule is_doubleI [of _ 1 "- 1"]) simp_all

lemma round64_values:
  "round64 1 = Fin 1" "round64 2 = Fin 2" "round64 4 = Fin 4" "round64 (- 1) = Fin (- 1)"
  "round64 (1 / 2) = Fin (1 / 2)" "round64 (- (1 / 2)) = Fin (- (1 / 2))"
  "round64 500 = Fin 500"
  using is_double_of_int [of 4] is_double_of_int [of 500] is_double_half
  by (simp_all add: round64_exact is_double_uminus)

lemma gapped_min_max:
  "series_min gapped_series = Fin 1" "series_max gapped_series = Fin 5"
  by (simp_all add: gapped_series_def series_min_def series_max_def dropna_def isna_def
      fmin_def fmax_def)

theorem minmax_normalize_keeps_missing_witness:
  "Fin 1 \<in> set gapped_series \<and> Fin 5 \<in> set gapped_series \<and> Fin 1 \<noteq> NaN \<and> Fin 5 \<noteq> NaN \<and>
   Fin 1 \<noteq> Fin (5 :: real) \<and>
   gapped_series ! 1 = NaN \<and> minmax_normalize gapped_series ! 1 = NaN \<and>
   gapped_series ! 3 = Fin 2 \<and> minmax_normalize gapped_series ! 3 = Fin (- (1 / 2)) \<and>
   series_min gapped_series = Fin 1 \<and> series_max gapped_series = Fin 5"
proof -
  have h1: "Fin 1 \<in> set gapped_series" and h2: "Fin 5 \<in> set gapped_series"
    by (simp_all add: gapped_series_def)
  have h3: "Fin 1 \<noteq> NaN" "Fin 5 \<noteq> NaN" "Fin 1 \<noteq> Fin (5 :: real)" by simp_all
  have g1: "gapped_series ! 1 = NaN" and g3: "gapped_series ! 3 = Fin 2"
    and len: "length gapped_series = 4"
    by (simp_all add: gapped_series_def)
  note t = minmax_normalize_keeps_missing [OF h1 h2 h3, unfolded gapped_min_max len]
  from t have a1: "minmax_normalize gapped_series ! 1 = NaN"
    using g1 by simp
  from t have "minmax_normalize gapped_series ! 3 =
      fsub (fdiv (fmul (Fin 2) (fsub (gapped_series ! 3) (Fin 1))) (fsub (Fin 5) (Fin 1))) (Fin 1)"
    by simp
  then have a3: "minmax_normalize gapped_series ! 3 = Fin (- (1 / 2))"
    unfolding g3 by (simp add: round64_values)
  show ?thesis using h1 h2 h3 g1 g3 a1 a3 gapped_min_max by simp
qed

lemma range_finite:
  assumes "is_double mn" and "is_double mx" and "mn < mx"
    and "fmul (Fin 2) (fsub (Fin mx) (Fin mn)) \<noteq> PosInf"
  obtains d where "fsub (Fin mx) (Fin mn) = Fin d" "0 < d" "is_double d"
    "fmul (Fin 2) (Fin d) = Fin (2 * d)" "is_double (2 * d)"
proof -
  from round64_diff_pos [OF assms(2,1,3)]
  have "fsub (Fin mx) (Fin mn) = PosInf \<or>
        (\<exists>d. fsub (Fin mx) (Fin mn) = Fin d \<and> 0 < d \<and> is_double d)" by simp
  moreover have "fsub (Fin mx) (Fin mn) \<noteq> PosInf"
  proof
    assume "fsub (Fin mx) (Fin mn) = PosInf"
    then have "fmul (Fin 2) (fsub (Fin mx) (Fin mn)) = PosInf" by (simp add: negative_def)
    then show False using assms(4) by simp
  qed
  ultimately obtain d where d: "fsub (Fin mx) (Fin mn) = Fin d" "0 < d" "is_double d" by blast
  have nn: "0 \<le> 2 * d" using d(2) by simp
  have "round64 (2 * d) \<noteq> PosInf" using assms(4) unfolding d(1) by simp
  then obtain t where t: "round64 (2 * d) = Fin t" using round64_nonneg [OF nn] by blast
  have "t = 2 * d" by (rule round64_twice [OF d(3) _ t]) (use d(2) in simp)
  then have "fmul (Fin 2) (Fin d) = Fin (2 * d)" using t by simp
  moreover have "is_double (2 * d)" using t \<open>t = 2 * d\<close> round64_Fin_is_double by blast
  ultimately show ?thesis using d by (intro that [of d])
qed

lemma rescale_bounds:
  assumes d: "fsub (Fin mx) (Fin mn) = Fin d" "0 < d" "is_double d"
    "fmul (Fin 2) (Fin d) = Fin (2 * d)" "is_double (2 * d)"
    and x: "mn \<le> x" "x \<le> mx"
  shows "\<exists>r. fsub (fdiv (fmul (Fin 2) (fsub (Fin x) (Fin mn))) (fsub (Fin mx) (Fin mn))) (Fin 1) = Fin r \<and>
             - 1 \<le> r \<and> r \<le> 1"
proof -
  have dd: "round64 (mx - mn) = Fin d" using d(1) by simp
  have "fle (round64 (x - mn)) (round64 (mx - mn))"
    using x(2) by (intro round64_mono) simp
  moreover have "fle (round64 0) (round64 (x - mn))"
    using x(1) by (intro round64_mono) simp
  ultimately obtain a where a: "round64 (x - mn) = Fin a" "0 \<le> a" "a \<le> d"
    unfolding dd by (cases "round64 (x - mn)") simp_all
  have "0 \<le> 2 * a" "2 * a \<le> 2 * d" using a by simp_all
  from round64_between [OF this _ d(5)]
  obtain b where b: "round64 (2 * a) = Fin b" "0 \<le> b" "b \<le> 2 * d" by auto
  have "0 \<le> b / d" "b / d \<le> 2" using b d(2) by (simp_all add: pos_divide_le_eq)
  from round64_between [OF this]
  obtain c where c: "round64 (b / d) = Fin c" "0 \<le> c" "c \<le> 2" by auto
  have "- 1 \<le> c - 1" "c - 1 \<le> 1" using c by simp_all
  from round64_between [OF this]
  obtain r where r: "round64 (c - 1) = Fin r" "- 1 \<le> r" "r \<le> 1"
    by (auto simp add: is_double_uminus)
  have "fsub (fdiv (fmul (Fin 2) (fsub (Fin x) (Fin mn))) (fsub (Fin mx) (Fin mn))) (Fin 1) = Fin r"
    unfolding d(1) using a(1) b(1) c(1) r(1) d(2) by simp
  then show ?thesis using r by blast
qed

lemma rescale_ends:
  assumes d: "fsub (Fin mx) (Fin mn) = Fin d" "0 < d" "is_double d"
    "fmul (Fin 2) (Fin d) = Fin (2 * d)"
  shows "fsub (fdiv (fmul (Fin 2) (fsub (Fin mn) (Fin mn))) (fsub (Fin mx) (Fin mn))) (Fin 1) =
           Fin (- 1)"
    and "fsub (fdiv (fmul (Fin 2) (fsub (Fin mx) (Fin mn))) (fsub (Fin mx) (Fin mn))) (Fin 1) =
           Fin 1"
proof -
  show "fsub (fdiv (fmul (Fin 2) (fsub (Fin mn) (Fin mn))) (fsub (Fin mx) (Fin mn))) (Fin 1) =
           Fin (- 1)"
    unfolding d(1) using d(2) by (simp add: round64_values)
  have two: "2 * d / d = 2" using d(2) by simp
  have "fdiv (Fin (2 * d)) (Fin d) = Fin 2"
    using d(2) by (simp add: two round64_values)
  then show "fsub (fdiv (fmul (Fin 2) (fsub (Fin mx) (Fin mn))) (fsub (Fin mx) (Fin mn))) (Fin 1) =
           Fin 1"
    unfolding d(1) d(4) by (simp add: round64_values)
qed

lemma huge_pos: "0 < huge"
  by (simp add: huge_def)

lemma is_double_huge: "is_double huge"
proof (rule is_doubleI [of _ "2 ^ 52" 971])
  have "(2 :: real) ^ 1023 = 2 ^ 52 * 2 ^ 971" by (simp only: power_add [symmetric]) simp
  then show "huge = of_int (2 ^ 52) * 2 powi 971" by (simp add: huge_def)
qed simp_all

lemma round64_twice_huge: "round64 (2 * huge) = PosInf"
proof (rule round64_overflow)
  have "(2 :: real) ^ 1024 = 2 * 2 ^ 1023" by simp
  then show "2 ^ 1024 \<le> 2 * huge" by (simp only: huge_def)
qed

lemma overflow_min_max:
  "series_min overflow_series = Fin 0" "series_max overflow_series = Fin huge"
  using huge_pos
  by (simp_all add: overflow_series_def series_min_def series_max_def dropna_def isna_def
      fmin_def fmax_def)

lemma infinite_min_max:
  "series_min infinite_series = Fin 0" "series_max infinite_series = PosInf"
  by (simp_all add: infinite_series_def series_min_def series_max_def dropna_def isna_def
      fmin_def fmax_def)

text \<open>
  C4, as stated, fails: for the doubles \<open>0\<close> and \<open>2 ^ 1023\<close> twice the range overflows
  and the maximum of the result is infinite, and for \<open>0\<close> and an infinity the infinite
  entry becomes missing and the maximum of the result is \<open>-1\<close>.
\<close>

theorem minmax_normalize_overflow_counterexample:
  "is_double 0 \<and> is_double huge \<and>
   series_min overflow_series = Fin 0 \<and> series_max overflow_series = Fin huge \<and>
   minmax_normalize overflow_series = [Fin (- 1), PosInf] \<and>
   series_max (minmax_normalize overflow_series) = PosInf \<and>
   minmax_normalize infinite_series = [Fin (- 1), NaN] \<and>
   series_max (minmax_normalize infinite_series) = Fin (- 1)"
proof -
  have ne: "dropna overflow_series \<noteq> []" "dropna infinite_series \<noteq> []"
    by (simp_all add: overflow_series_def infinite_series_def dropna_def isna_def)
  have d: "series_max overflow_series \<noteq> series_min overflow_series"
    using huge_pos by (simp add: overflow_min_max)
  have d': "series_max infinite_series \<noteq> series_min infinite_series"
    by (simp add: infinite_min_max)
  have h: "huge \<noteq> 0" "\<not> huge < 0" using huge_pos by simp_all
  have a: "minmax_normalize overflow_series = [Fin (- 1), PosInf]"
    unfolding minmax_normalize_regular [OF ne(1) d] overflow_min_max
    by (simp add: overflow_series_def round64_values round64_exact [OF is_double_huge]
        round64_twice_huge negative_def h)
  have b: "minmax_normalize infinite_series = [Fin (- 1), NaN]"
    unfolding minmax_normalize_regular [OF ne(2) d'] infinite_min_max
    by (simp add: infinite_series_def round64_values negative_def)
  have c: "series_max [Fin (- 1), PosInf] = PosInf" "series_max [Fin (- 1), NaN] = Fin (- 1)"
    by (simp_all add: series_max_def dropna_def isna_def fmax_def)
  show ?thesis using a b c overflow_min_max is_double_huge by simp
qed

text \<open>
  C4, amended. For every series of doubles without infinities, with least non-missing
  value \<open>mn\<close> and greatest \<open>mx\<close>, \<open>mn \<noteq> mx\<close>, for which twice the rounded range does
  not overflow, normalisation maps each value \<open>v\<close> to \<open>2 * (v - mn) / (mx - mn) - 1\<close>
  evaluated in double arithmetic, and the minimum and the maximum of the result are
  exactly \<open>-1\<close> and \<open>1\<close>.
\<close>

theorem minmax_normalize_range:
  assumes cells: "\<forall>v \<in> set s. v = NaN \<or> (\<exists>x. v = Fin x \<and> is_double x)"
    and mn: "Fin mn \<in> set s" and mx: "Fin mx \<in> set s"
    and bounds: "\<forall>x. Fin x \<in> set s \<longrightarrow> mn \<le> x \<and> x \<le> mx"
    and ne: "mn \<noteq> mx"
    and fits: "fmul (Fin 2) (fsub (Fin mx) (Fin mn)) \<noteq> PosInf"
  shows "series_min s = Fin mn \<and> series_max s = Fin mx \<and>
         minmax_normalize s =
           map (\<lambda>v. fsub (fdiv (fmul (Fin 2) (fsub v (Fin mn))) (fsub (Fin mx) (Fin mn))) (Fin 1)) s \<and>
         series_min (minmax_normalize s) = Fin (- 1) \<and>
         series_max (minmax_normalize s) = Fin 1"
proof -
  let ?F = "\<lambda>v. fsub (fdiv (fmul (Fin 2) (fsub v (Fin mn))) (fsub (Fin mx) (Fin mn))) (Fin 1)"
  have low: "\<forall>w \<in> set s. w \<noteq> NaN \<longrightarrow> fle (Fin mn) w"
    and up: "\<forall>w \<in> set s. w \<noteq> NaN \<longrightarrow> fle w (Fin mx)"
    using cells bounds by fastforce+
  have smin: "series_min s = Fin mn" by (rule series_min_eqI [OF mn _ low]) simp
  have smax: "series_max s = Fin mx" by (rule series_max_eqI [OF mx _ up]) simp
  have dn: "dropna s \<noteq> []" by (rule dropna_nonempty [OF mn]) simp
  have f: "minmax_normalize s = map ?F s"
    using minmax_normalize_regular [OF dn] ne unfolding smin smax by simp
  have lt: "mn < mx" using bounds mn ne by fastforce
  have dmn: "is_double mn" and dmx: "is_double mx" using cells mn mx by auto
  from range_finite [OF dmn dmx lt fits]
  obtain d where d: "fsub (Fin mx) (Fin mn) = Fin d" "0 < d" "is_double d"
    "fmul (Fin 2) (Fin d) = Fin (2 * d)" "is_double (2 * d)" .
  have lo_end: "?F (Fin mn) = Fin (- 1)" and hi_end: "?F (Fin mx) = Fin 1"
    by (rule rescale_ends [OF d(1-4)])+
  have within: "?F w = NaN \<or> (\<exists>r. ?F w = Fin r \<and> - 1 \<le> r \<and> r \<le> 1)" if w: "w \<in> set s" for w
  proof (cases "w = NaN")
    case True
    then show ?thesis by simp
  next
    case False
    then obtain x where x: "w = Fin x" using cells w by blast
    then have "mn \<le> x" "x \<le> mx" using bounds w by simp_all
    from rescale_bounds [OF d this] show ?thesis unfolding x by blast
  qed
  have in_lo: "Fin (- 1) \<in> set (minmax_normalize s)"
    unfolding f using mn lo_end by (metis (no_types, lifting) image_eqI set_map)
  have in_hi: "Fin 1 \<in> set (minmax_normalize s)"
    unfolding f using mx hi_end by (metis (no_types, lifting) image_eqI set_map)
  have all_lo: "\<forall>w \<in> set (minmax_normalize s). w \<noteq> NaN \<longrightarrow> fle (Fin (- 1)) w"
    unfolding f using within by fastforce
  have all_hi: "\<forall>w \<in> set (minmax_normalize s). w \<noteq> NaN \<longrightarrow> fle w (Fin 1)"
    unfolding f using within by fastforce
  have rmin: "series_min (minmax_normalize s) = Fin (- 1)"
    by (rule series_min_eqI [OF in_lo _ all_lo]) simp
  have rmax: "series_max (minmax_normalize s) = Fin 1"
    by (rule series_max_eqI [OF in_hi _ all_hi]) simp
  show ?thesis using smin smax f rmin rmax by blast
qed

theorem minmax_normalize_range_witness:
  "list_all (\<lambda>v. v = NaN \<or> (\<exists>x. v = Fin x \<and> is_double x)) gapped_series \<and>
   Fin 1 \<in> set gapped_series \<and> Fin 5 \<in> set gapped_series \<and>
   list_all (\<lambda>v. \<forall>x. v = Fin x \<longrightarrow> 1 \<le> x \<and> x \<le> 5) gapped_series \<and>
   (1 :: real) \<noteq> 5 \<and>
   fmul (Fin 2) (fsub (Fin 5) (Fin 1)) = Fin 8 \<and>
   minmax_normalize gapped_series = [Fin (- 1), NaN, Fin 1, Fin (- (1 / 2))] \<and>
   series_min (minmax_normalize gapped_series) = Fin (- 1) \<and>
   series_max (minmax_normalize gapped_series) = Fin 1"
proof -
  have r8: "round64 8 = Fin 8" "round64 5 = Fin 5"
    using is_double_of_int [of 8] is_double_of_int [of 5] by (simp_all add: round64_exact)
  have h1: "\<forall>v \<in> set gapped_series. v = NaN \<or> (\<exists>x. v = Fin x \<and> is_double x)"
    using is_double_of_int [of 5] by (simp add: gapped_series_def)
  have h2: "Fin 1 \<in> set gapped_series" and h3: "Fin 5 \<in> set gapped_series"
    by (simp_all add: gapped_series_def)
  have h4: "\<forall>x. Fin x \<in> set gapped_series \<longrightarrow> 1 \<le> x \<and> x \<le> 5"
    by (auto simp add: gapped_series_def)
  have h5: "(1 :: real) \<noteq> 5" by simp
  have e: "fmul (Fin 2) (fsub (Fin 5) (Fin 1)) = Fin 8" by (simp add: round64_values r8)
  then have h6: "fmul (Fin 2) (fsub (Fin 5) (Fin 1)) \<noteq> PosInf" by simp
  note t = minmax_normalize_range [OF h1 h2 h3 h4 h5 h6]
  have a: "minmax_normalize gapped_series = [Fin (- 1), NaN, Fin 1, Fin (- (1 / 2))]"
    using t by (simp add: gapped_series_def round64_values r8)
  have b: "series_min (minmax_normalize gapped_series) = Fin (- 1)"
    "series_max (minmax_normalize gapped_series) = Fin 1"
    using t by blast+
  have l1: "list_all (\<lambda>v. v = NaN \<or> (\<exists>x. v = Fin x \<and> is_double x)) gapped_series"
    using h1 by (simp add: list_all_iff)
  have l4: "list_all (\<lambda>v. \<forall>x. v = Fin x \<longrightarrow> 1 \<le> x \<and> x \<le> 5) gapped_series"
    using h4 unfolding list_all_iff by blast
  show ?thesis using l1 h2 h3 l4 h5 e a b by blast
qed

section \<open>Properties of the figure builder\<close>

lemma for_each_all2:
  "for_each f xs = Inr ys \<Longrightarrow> list_all2 (\<lambda>x y. f x = Inr y) xs ys"
proof (induction xs arbitrary: ys)
  case Nil
  then show ?case by simp
next
  case (Cons a xs)
  then show ?case by (auto split: sum.splits)
qed

lemma for_each_ok:
  "\<forall>x \<in> set xs. \<exists>y. f x = Inr y \<Longrightarrow> \<exists>ys. for_each f xs = Inr ys"
proof (induction xs)
  case Nil
  then show ?case by simp
next
  case (Cons a xs)
  then obtain y ys where "f a = Inr y" "for_each f xs = Inr ys" by auto
  then show ?case by simp
qed

lemma position_ok: "a \<in> set bs \<Longrightarrow> \<exists>i. position a bs = Some i"
  by (induction bs) auto

lemma get_column_ok:
  "ch \<in> set (columns df) \<Longrightarrow> \<exists>col. get_column df ch = Inr col"
  using position_ok [of ch "columns df"] by (auto simp add: get_column_def)

lemma series_mul_1000:
  "series_mul col (Fin 1000) = map (\<lambda>v. fmul v (Fin 1000)) col"
  by (simp add: series_mul_def)

lemma eeg_trace_ok:
  assumes "get_column df ch = Inr col"
  shows "\<exists>t. eeg_trace df time normalize_on ch = Inr t \<and>
             trace_y t = (if normalize_on then minmax_normalize col else col)"
  using assms by (simp add: eeg_trace_def)

lemma cm_trace_ok:
  assumes "get_column df ch = Inr col"
  shows "\<exists>t. cm_trace df time normalize_on ch = Inr t \<and>
             trace_y t = (if normalize_on then minmax_normalize col else col)"
  using assms by (simp add: cm_trace_def)

lemma ecg_trace_ok:
  assumes "get_column df ch = Inr col"
  shows "\<exists>t. ecg_trace df time normalize_on ch = Inr t \<and>
             trace_y t = (if normalize_on
                          then minmax_normalize (map (\<lambda>v. fmul v (Fin 1000)) col)
                          else map (\<lambda>v. fmul v (Fin 1000)) col)"
  using assms by (simp add: ecg_trace_def Let_def series_mul_1000)

lemma eeg_trace_y:
  assumes "eeg_trace df time normalize_on ch = Inr t"
  shows "\<exists>col. get_column df ch = Inr col \<and>
               trace_y t = (if normalize_on then minmax_normalize col else col)"
  using assms by (auto simp add: eeg_trace_def split: sum.splits if_splits)

lemma cm_trace_y:
  assumes "cm_trace df time normalize_on ch = Inr t"
  shows "\<exists>col. get_column df ch = Inr col \<and>
               trace_y t = (if normalize_on then minmax_normalize col else col)"
  using assms by (auto simp add: cm_trace_def split: sum.splits if_splits)

lemma ecg_trace_y:
  assumes "ecg_trace df time normalize_on ch = Inr t"
  shows "\<exists>col. get_column df ch = Inr col \<and>
               trace_y t = (if normalize_on
                            then minmax_normalize (map (\<lambda>v. fmul v (Fin 1000)) col)
                            else map (\<lambda>v. fmul v (Fin 1000)) col)"
  using assms
  by (auto simp add: ecg_trace_def Let_def series_mul_1000 split: sum.splits if_splits)

lemma minmax_normalize_constant:
  "minmax_normalize (replicate n (Fin k)) = replicate n (Fin 0)"
proof (cases n)
  case 0
  then show ?thesis
    by (simp add: minmax_normalize_def series_min_def dropna_def isna_def series_mul_def)
next
  case (Suc m)
  then have "n \<noteq> 0" by simp
  then have st: "set (replicate n (Fin k)) = {Fin k}" by (rule set_replicate)
  have mm: "series_min (replicate n (Fin k)) = Fin k" "series_max (replicate n (Fin k)) = Fin k"
    by (rule constant_min_max; simp add: st)+
  have "dropna (replicate n (Fin k)) = [] \<or>
        feq (series_max (replicate n (Fin k))) (series_min (replicate n (Fin k)))"
    unfolding mm by (simp add: feq_def)
  then have "minmax_normalize (replicate n (Fin k)) =
               map (\<lambda>v. case v of Fin x \<Rightarrow> Fin 0 | _ \<Rightarrow> NaN) (replicate n (Fin k))"
    by (rule minmax_normalize_degenerate)
  then show ?thesis by simp
qed

lemma build_figure_ok:
  assumes time: "''Time'' \<in> set (columns df)"
    and eeg: "set eeg_channels \<subseteq> set (columns df)"
    and ecg: "set ecg_channels \<subseteq> set (columns df)"
    and cm: "set_option cm_channel \<subseteq> set (columns df)"
  shows "\<exists>fig. build_figure df eeg_channels ecg_channels cm_channel normalize_on = Inr fig"
proof -
  obtain time_col where t: "get_column df ''Time'' = Inr time_col"
    using get_column_ok [OF time] by blast
  have "\<forall>ch \<in> set eeg_channels. \<exists>y. eeg_trace df time_col normalize_on ch = Inr y"
    using eeg get_column_ok [of _ df] eeg_trace_ok [of df] by (meson subsetD)
  then obtain a where a: "for_each (eeg_trace df time_col normalize_on) eeg_channels = Inr a"
    using for_each_ok by blast
  have "\<forall>ch \<in> set ecg_channels. \<exists>y. ecg_trace df time_col normalize_on ch = Inr y"
    using ecg get_column_ok [of _ df] ecg_trace_ok [of df] by (meson subsetD)
  then obtain b where b: "for_each (ecg_trace df time_col normalize_on) ecg_channels = Inr b"
    using for_each_ok by blast
  have "\<exists>c. (case cm_channel of
              None \<Rightarrow> Inr []
            | Some c \<Rightarrow> (case cm_trace df time_col normalize_on c of
                           Inl e \<Rightarrow> Inl e | Inr t \<Rightarrow> Inr [t])) = Inr c"
  proof (cases cm_channel)
    case None
    then show ?thesis by simp
  next
    case (Some c)
    then have "c \<in> set (columns df)" using cm by simp
    then obtain col where "get_column df c = Inr col" using get_column_ok by blast
    from cm_trace_ok [OF this] obtain t where "cm_trace df time_col normalize_on c = Inr t"
      by blast
    then show ?thesis using Some by simp
  qed
  then obtain c where c: "(case cm_channel of
              None \<Rightarrow> Inr []
            | Some c \<Rightarrow> (case cm_trace df time_col normalize_on c of
                           Inl e \<Rightarrow> Inl e | Inr t \<Rightarrow> Inr [t])) = Inr c" by blast
  show ?thesis by (simp add: build_figure_def t a b c)
qed

lemma build_figure_traces:
  assumes b: "build_figure df eeg_channels ecg_channels cm_channel normalize_on = Inr fig"
  shows "\<exists>eeg ecg cm.
         traces fig = eeg @ ecg @ cm \<and>
         list_all2
           (\<lambda>ch t. \<exists>col. get_column df ch = Inr col \<and>
                     trace_y t = (if normalize_on then minmax_normalize col else col))
           eeg_channels eeg \<and>
         list_all2
           (\<lambda>ch t. \<exists>col. get_column df ch = Inr col \<and>
                     trace_y t =
                       (if normalize_on
                        then minmax_normalize (map (\<lambda>v. fmul v (Fin 1000)) col)
                        else map (\<lambda>v. fmul v (Fin 1000)) col))
           ecg_channels ecg \<and>
         list_all2
           (\<lambda>ch t. \<exists>col. get_column df ch = Inr col \<and>
                     trace_y t = (if normalize_on then minmax_normalize col else col))
           (case cm_channel of None \<Rightarrow> [] | Some c \<Rightarrow> [c]) cm"
proof -
  from b obtain time where time: "get_column df ''Time'' = Inr time"
    by (auto simp add: build_figure_def split: sum.splits)
  from b time obtain eeg where eeg: "for_each (eeg_trace df time normalize_on) eeg_channels = Inr eeg"
    by (auto simp add: build_figure_def split: sum.splits)
  from b time eeg obtain ecg where ecg: "for_each (ecg_trace df time normalize_on) ecg_channels = Inr ecg"
    by (auto simp add: build_figure_def split: sum.splits)
  from b time eeg ecg obtain cm where
    cm: "(case cm_channel of
              None \<Rightarrow> Inr []
            | Some c \<Rightarrow> (case cm_trace df time normalize_on c of Inl e \<Rightarrow> Inl e | Inr t \<Rightarrow> Inr [t])) = Inr cm"
    by (auto simp add: build_figure_def split: sum.splits)
  have tr: "traces fig = eeg @ ecg @ cm"
    using b time eeg ecg cm by (auto simp add: build_figure_def)
  have 1: "list_all2
           (\<lambda>ch t. \<exists>col. get_column df ch = Inr col \<and>
                     trace_y t = (if normalize_on then minmax_normalize col else col))
           eeg_channels eeg"
    by (rule list_all2_mono [OF for_each_all2 [OF eeg]]) (rule eeg_trace_y)
  have 2: "list_all2
           (\<lambda>ch t. \<exists>col. get_column df ch = Inr col \<and>
                     trace_y t =
                       (if normalize_on
                        then minmax_normalize (map (\<lambda>v. fmul v (Fin 1000)) col)
                        else map (\<lambda>v. fmul v (Fin 1000)) col))
           ecg_channels ecg"
    by (rule list_all2_mono [OF for_each_all2 [OF ecg]]) (rule ecg_trace_y)
  have 3: "list_all2
           (\<lambda>ch t. \<exists>col. get_column df ch = Inr col \<and>
                     trace_y t = (if normalize_on then minmax_normalize col else col))
           (case cm_channel of None \<Rightarrow> [] | Some c \<Rightarrow> [c]) cm"
  proof (cases cm_channel)
    case None
    then show ?thesis using cm by auto
  next
    case (Some c)
    then obtain t where t: "cm_trace df time normalize_on c = Inr t" and c: "cm = [t]"
      using cm by (auto split: sum.splits)
    show ?thesis using cm_trace_y [OF t] Some c by simp
  qed
  show ?thesis using tr 1 2 3 by blast
qed

lemma round64_huge_1000: "round64 (huge * 1000) = PosInf"
proof (rule round64_overflow)
  have "(2 :: real) ^ 1024 = 2 ^ 1023 * 2" by simp
  also have "\<dots> \<le> 2 ^ 1023 * 1000" by (intro mult_left_mono) simp_all
  finally show "2 ^ 1024 \<le> huge * 1000" by (simp only: huge_def)
qed

text \<open>
  C5, as stated, fails: an ECG column holding the constant double \<open>2 ^ 1023\<close> is
  converted to infinities, and normalising them gives missing values, not zeros.
\<close>

theorem constant_ecg_overflow_counterexample:
  "is_double huge \<and>
   get_column overflow_ecg_frame ''X1:LEOG'' = Inr (replicate 2 (Fin huge)) \<and>
   map_sum id trace_y (ecg_trace overflow_ecg_frame [] True ''X1:LEOG'') = Inr [NaN, NaN] \<and>
   map_sum id (map trace_y \<circ> traces)
     (build_figure overflow_ecg_frame [] [''X1:LEOG''] None True) = Inr [[NaN, NaN]]"
proof -
  have g: "get_column overflow_ecg_frame ''X1:LEOG'' = Inr [Fin huge, Fin huge]"
    and tm: "get_column overflow_ecg_frame ''Time'' = Inr [Fin 0, Fin 1]"
    by (simp_all add: get_column_def overflow_ecg_frame_def)
  have m: "series_mul [Fin huge, Fin huge] (Fin 1000) = [PosInf, PosInf]"
    by (simp add: series_mul_def round64_huge_1000)
  have n: "minmax_normalize [PosInf, PosInf] = [NaN, NaN]"
    by (simp add: minmax_normalize_def series_min_def series_max_def dropna_def isna_def
        fmin_def fmax_def feq_def series_mul_def)
  show ?thesis
    by (simp add: is_double_huge g tm m n ecg_trace_def build_figure_def Let_def
        numeral_2_eq_2)
qed

text \<open>
  C5, amended. When the frame has the \<^verbatim>\<open>Time\<close> column and every channel asked for, the
  figure is built; the data of an ECG trace is the column times 1000 in double arithmetic
  (exactly \<open>x * 1000\<close> where that is a double), normalised after that when normalisation
  is on; the data of an EEG trace and of the reference trace is the column as it is,
  normalised when normalisation is on. An ECG column holding one finite value whose
  product with 1000 is finite normalises to zeros.
\<close>

theorem build_figure_unit_conversion:
  "(''Time'' \<in> set (columns df) \<and> set eeg_channels \<subseteq> set (columns df) \<and>
    set ecg_channels \<subseteq> set (columns df) \<and> set_option cm_channel \<subseteq> set (columns df) \<longrightarrow>
      (\<exists>fig eeg ecg cm.
         build_figure df eeg_channels ecg_channels cm_channel normalize_on = Inr fig \<and>
         traces fig = eeg @ ecg @ cm \<and>
         list_all2
           (\<lambda>ch t. \<exists>col. get_column df ch = Inr col \<and>
                     trace_y t = (if normalize_on then minmax_normalize col else col))
           eeg_channels eeg \<and>
         list_all2
           (\<lambda>ch t. \<exists>col. get_column df ch = Inr col \<and>
                     trace_y t =
                       (if normalize_on
                        then minmax_normalize (map (\<lambda>v. fmul v (Fin 1000)) col)
                        else map (\<lambda>v. fmul v (Fin 1000)) col))
           ecg_channels ecg \<and>
         list_all2
           (\<lambda>ch t. \<exists>col. get_column df ch = Inr col \<and>
                     trace_y t = (if normalize_on then minmax_normalize col else col))
           (case cm_channel of None \<Rightarrow> [] | Some c \<Rightarrow> [c]) cm)) \<and>
   (is_double (x * 1000) \<longrightarrow> fmul (Fin x) (Fin 1000) = Fin (x * 1000)) \<and>
   (get_column df ch = Inr (replicate n (Fin c)) \<and> fmul (Fin c) (Fin 1000) = Fin w \<longrightarrow>
      (\<exists>t. ecg_trace df time True ch = Inr t \<and> trace_y t = replicate n (Fin 0)))"
proof (intro conjI impI)
  assume a: "''Time'' \<in> set (columns df) \<and> set eeg_channels \<subseteq> set (columns df) \<and>
    set ecg_channels \<subseteq> set (columns df) \<and> set_option cm_channel \<subseteq> set (columns df)"
  then obtain fig where
    b: "build_figure df eeg_channels ecg_channels cm_channel normalize_on = Inr fig"
    using build_figure_ok [of df eeg_channels ecg_channels cm_channel normalize_on] by blast
  from build_figure_traces [OF b] b
  show "\<exists>fig eeg ecg cm.
         build_figure df eeg_channels ecg_channels cm_channel normalize_on = Inr fig \<and>
         traces fig = eeg @ ecg @ cm \<and>
         list_all2
           (\<lambda>ch t. \<exists>col. get_column df ch = Inr col \<and>
                     trace_y t = (if normalize_on then minmax_normalize col else col))
           eeg_channels eeg \<and>
         list_all2
           (\<lambda>ch t. \<exists>col. get_column df ch = Inr col \<and>
                     trace_y t =
                       (if normalize_on
                        then minmax_normalize (map (\<lambda>v. fmul v (Fin 1000)) col)
                        else map (\<lambda>v. fmul v (Fin 1000)) col))
           ecg_channels ecg \<and>
         list_all2
           (\<lambda>ch t. \<exists>col. get_column df ch = Inr col \<and>
                     trace_y t = (if normalize_on then minmax_normalize col else col))
           (case cm_channel of None \<Rightarrow> [] | Some c \<Rightarrow> [c]) cm"
    by blast
next
  assume "is_double (x * 1000)"
  then show "fmul (Fin x) (Fin 1000) = Fin (x * 1000)" by (simp add: round64_exact)
next
  assume a: "get_column df ch = Inr (replicate n (Fin c)) \<and> fmul (Fin c) (Fin 1000) = Fin w"
  then have m: "map (\<lambda>v. fmul v (Fin 1000)) (replicate n (Fin c)) = replicate n (Fin w)"
    by simp
  from a ecg_trace_ok [of df ch "replicate n (Fin c)" time True]
  obtain t where t: "ecg_trace df time True ch = Inr t"
    "trace_y t = minmax_normalize (map (\<lambda>v. fmul v (Fin 1000)) (replicate n (Fin c)))"
    by auto
  have "trace_y t = replicate n (Fin 0)"
    unfolding t(2) m by (rule minmax_normalize_constant)
  then show "\<exists>t. ecg_trace df time True ch = Inr t \<and> trace_y t = replicate n (Fin 0)"
    using t(1) by blast
qed

theorem build_figure_unit_conversion_witness:
  "''Time'' \<in> set (columns constant_ecg_frame) \<and>
   set [''Fz''] \<subseteq> set (columns constant_ecg_frame) \<and>
   set [''X1:LEOG''] \<subseteq> set (columns constant_ecg_frame) \<and>
   map_sum id (map trace_y \<circ> traces)
     (build_figure constant_ecg_frame [''Fz''] [''X1:LEOG''] None False) =
       Inr [[Fin 4, Fin 8, Fin 6], [Fin 500, Fin 500, Fin 500]] \<and>
   is_double (1 / 2 * 1000) \<and> fmul (Fin (1 / 2)) (Fin 1000) = Fin 500 \<and>
   get_column constant_ecg_frame ''X1:LEOG'' = Inr (replicate 3 (Fin (1 / 2))) \<and>
   map_sum id trace_y (ecg_trace constant_ecg_frame [] True ''X1:LEOG'') =
     Inr [Fin 0, Fin 0, Fin 0]"
proof -
  have h1: "''Time'' \<in> set (columns constant_ecg_frame) \<and>
      set [''Fz''] \<subseteq> set (columns constant_ecg_frame) \<and>
      set [''X1:LEOG''] \<subseteq> set (columns constant_ecg_frame) \<and>
      set_option None \<subseteq> set (columns constant_ecg_frame)"
    by (simp add: constant_ecg_frame_def)
  have d500: "is_double (1 / 2 * 1000)" using is_double_of_int [of 500] by simp
  have g: "get_column constant_ecg_frame ''X1:LEOG'' = Inr (replicate 3 (Fin (1 / 2)))"
    by (simp add: get_column_def constant_ecg_frame_def numeral_3_eq_3)
  have fz: "get_column constant_ecg_frame ''Fz'' = Inr [Fin 4, Fin 8, Fin 6]"
    by (simp add: get_column_def constant_ecg_frame_def)
  note t = build_figure_unit_conversion
    [where df = constant_ecg_frame and eeg_channels = "[''Fz'']"
       and ecg_channels = "[''X1:LEOG'']" and cm_channel = None and normalize_on = False
       and x = "1 / 2" and ch = "''X1:LEOG''" and n = 3 and c = "1 / 2" and w = 500
       and time = "[]"]
  from t d500 have m: "fmul (Fin (1 / 2)) (Fin 1000) = Fin 500" by simp
  from t h1 obtain fig eeg ecg cm where
    b: "build_figure constant_ecg_frame [''Fz''] [''X1:LEOG''] None False = Inr fig"
    and tr: "traces fig = eeg @ ecg @ cm"
    and e1: "list_all2 (\<lambda>ch t. \<exists>col. get_column constant_ecg_frame ch = Inr col \<and>
                     trace_y t = (if False then minmax_normalize col else col)) [''Fz''] eeg"
    and e2: "list_all2 (\<lambda>ch t. \<exists>col. get_column constant_ecg_frame ch = Inr col \<and>
                     trace_y t =
                       (if False
                        then minmax_normalize (map (\<lambda>v. fmul v (Fin 1000)) col)
                        else map (\<lambda>v. fmul v (Fin 1000)) col)) [''X1:LEOG''] ecg"
    and e3: "list_all2 (\<lambda>ch t. \<exists>col. get_column constant_ecg_frame ch = Inr col \<and>
                     trace_y t = (if False then minmax_normalize col else col))
               (case None of None \<Rightarrow> [] | Some c \<Rightarrow> [c]) cm"
    by blast
  from e1 obtain t1 where t1: "eeg = [t1]" "trace_y t1 = [Fin 4, Fin 8, Fin 6]"
    by (auto simp add: list_all2_Cons1 fz)
  from e2 obtain t2 where t2: "ecg = [t2]" "trace_y t2 = [Fin 500, Fin 500, Fin 500]"
    by (auto simp add: list_all2_Cons1 g round64_values numeral_3_eq_3)
  from e3 have t3: "cm = []" by simp
  have a: "map_sum id (map trace_y \<circ> traces)
     (build_figure constant_ecg_frame [''Fz''] [''X1:LEOG''] None False) =
       Inr [[Fin 4, Fin 8, Fin 6], [Fin 500, Fin 500, Fin 500]]"
    by (simp add: b tr t1 t2 t3)
  from t g m obtain t where
    "ecg_trace constant_ecg_frame [] True ''X1:LEOG'' = Inr t" "trace_y t = replicate 3 (Fin 0)"
    by blast
  then have z: "map_sum id trace_y (ecg_trace constant_ecg_frame [] True ''X1:LEOG'') =
     Inr [Fin 0, Fin 0, Fin 0]"
    by (simp add: numeral_3_eq_3)
  show ?thesis using h1 a d500 m g z by simp
qed

section \<open>Properties of the run\<close>

lemma load_data_parse_error:
  "read_csv csv_path = Inl e \<Longrightarrow>
     load_data read_csv csv_path n = ([FailedToReadCsv e], Inl e)"
  by (simp add: load_data_def)

lemma load_data_no_time:
  "read_csv csv_path = Inr df \<Longrightarrow> ''Time'' \<notin> set (columns df) \<Longrightarrow>
     load_data read_csv csv_path n =
       ([], Inl (ValueError ''CSV must include a 'Time' column in seconds.''))"
  by (simp add: load_data_def Let_def reset_index_def iloc_rows_def)

lemma load_data_ok:
  "read_csv csv_path = Inr df \<Longrightarrow> ''Time'' \<in> set (columns df) \<Longrightarrow>
     \<exists>df'. load_data read_csv csv_path n = ([], Inr df') \<and> columns df' = columns df"
  by (simp add: load_data_def Let_def reset_index_def iloc_rows_def)

lemma detect_channels_columns:
  "columns df = columns df' \<Longrightarrow>
     detect_channels df include_ecg include_cm = detect_channels df' include_ecg include_cm"
  by (simp add: detect_channels_def)

lemma main_missing_path:
  "\<not> path_exists (arg_csv args) \<Longrightarrow>
     main path_exists read_csv args = ([CsvNotFound (arg_csv args)], SysExit 1)"
  by (simp add: main_def)

lemma main_load_failed:
  "path_exists (arg_csv args) \<Longrightarrow>
   load_data read_csv (arg_csv args) (arg_downsample args) = (err, Inl e) \<Longrightarrow>
     main path_exists read_csv args = (err, Uncaught e)"
  by (simp add: main_def)

lemma main_no_channels:
  "path_exists (arg_csv args) \<Longrightarrow>
   load_data read_csv (arg_csv args) (arg_downsample args) = (err, Inr df) \<Longrightarrow>
   detect_channels (drop_ignored df) (\<not> arg_no_ecg args) (\<not> arg_no_cm args) = ([], [], None) \<Longrightarrow>
     main path_exists read_csv args =
       (err @ [NoPlottableChannels, ColumnsFound (columns (drop_ignored df))], SysExit 2)"
  by (simp add: main_def Let_def)

lemma no_signal_columns:
  assumes "columns df = [''Time'', ''Trigger'', ''X3:Aux'']"
  shows "columns (drop_ignored df) = [''Time'']"
    and "detect_channels (drop_ignored df) include_ecg include_cm = ([], [], None)"
proof -
  have i: "\<not> is_ignored_column ''Time''" "is_ignored_column ''Trigger''"
    "is_ignored_column ''X3:Aux''"
    by (simp_all add: is_ignored_column_iff)
  show c: "columns (drop_ignored df) = [''Time'']"
    using assms i by (simp add: columns_drop_ignored)
  show "detect_channels (drop_ignored df) include_ecg include_cm = ([], [], None)"
    by (simp add: detect_channels_def c EEG_CANDIDATES_def)
qed

text \<open>
  C8. When the path exists, the table loads and the classifier finds no EEG channel, no ECG
  channel and no reference channel, the run prints the column names that remain after the
  drop and ends with exit status 2; a run on a missing path ends with exit status 1. A
  table whose only columns are \<^verbatim>\<open>Time\<close>, \<^verbatim>\<open>Trigger\<close> and \<^verbatim>\<open>X3:Aux\<close> ends this way,
  whatever the stride and the flags.
\<close>

theorem main_no_channels_exit:
  "(path_exists (arg_csv args) \<and>
    load_data read_csv (arg_csv args) (arg_downsample args) = (err, Inr df) \<and>
    detect_channels (drop_ignored df) (\<not> arg_no_ecg args) (\<not> arg_no_cm args) = ([], [], None) \<longrightarrow>
      main path_exists read_csv args =
        (err @ [NoPlottableChannels, ColumnsFound (columns (drop_ignored df))], SysExit 2) \<and>
      exit_status (snd (main path_exists read_csv args)) = 2) \<and>
   (\<not> path_exists' (arg_csv args') \<longrightarrow>
      exit_status (snd (main path_exists' read_csv' args')) = 1) \<and>
   (path_exists (arg_csv args) \<and> read_csv (arg_csv args) = Inr table \<and>
    columns table = [''Time'', ''Trigger'', ''X3:Aux''] \<longrightarrow>
      main path_exists read_csv args =
        ([NoPlottableChannels, ColumnsFound [''Time'']], SysExit 2))"
proof (intro conjI impI)
  assume a: "path_exists (arg_csv args) \<and>
    load_data read_csv (arg_csv args) (arg_downsample args) = (err, Inr df) \<and>
    detect_channels (drop_ignored df) (\<not> arg_no_ecg args) (\<not> arg_no_cm args) = ([], [], None)"
  then show m: "main path_exists read_csv args =
        (err @ [NoPlottableChannels, ColumnsFound (columns (drop_ignored df))], SysExit 2)"
    by (intro main_no_channels) simp_all
  show "exit_status (snd (main path_exists read_csv args)) = 2"
    by (simp add: m)
next
  assume "\<not> path_exists' (arg_csv args')"
  then show "exit_status (snd (main path_exists' read_csv' args')) = 1"
    by (simp add: main_missing_path)
next
  assume a: "path_exists (arg_csv args) \<and> read_csv (arg_csv args) = Inr table \<and>
    columns table = [''Time'', ''Trigger'', ''X3:Aux'']"
  then have "''Time'' \<in> set (columns table)" by simp
  with a obtain df' where
    l: "load_data read_csv (arg_csv args) (arg_downsample args) = ([], Inr df')"
    and c: "columns df' = columns table"
    using load_data_ok [of read_csv "arg_csv args" table "arg_downsample args"] by blast
  have c': "columns df' = [''Time'', ''Trigger'', ''X3:Aux'']" using a c by simp
  show "main path_exists read_csv args =
        ([NoPlottableChannels, ColumnsFound [''Time'']], SysExit 2)"
    using main_no_channels [of path_exists args read_csv "[]" df'] a l
      no_signal_columns [OF c']
    by simp
qed

theorem main_no_channels_exit_witness:
  "path_found (arg_csv default_args) \<and>
   reads_as (Inr no_signal_frame) (arg_csv default_args) = Inr no_signal_frame \<and>
   columns no_signal_frame = [''Time'', ''Trigger'', ''X3:Aux''] \<and>
   main path_found (reads_as (Inr no_signal_frame)) default_args =
     ([NoPlottableChannels, ColumnsFound [''Time'']], SysExit 2) \<and>
   path_missing (arg_csv default_args) = False \<and>
   exit_status (snd (main path_missing (reads_as (Inr no_signal_frame)) default_args)) = 1"
proof -
  have h1: "path_found (arg_csv default_args)" by (simp add: path_found_def)
  have h2: "reads_as (Inr no_signal_frame) (arg_csv default_args) = Inr no_signal_frame"
    by (simp add: reads_as_def)
  have h3: "columns no_signal_frame = [''Time'', ''Trigger'', ''X3:Aux'']"
    by (simp add: no_signal_frame_def)
  have h4: "\<not> path_missing (arg_csv default_args)" by (simp add: path_missing_def)
  note t = main_no_channels_exit
    [where path_exists = path_found and args = default_args
       and read_csv = "reads_as (Inr no_signal_frame)" and table = no_signal_frame
       and path_exists' = path_missing and args' = default_args
       and read_csv' = "reads_as (Inr no_signal_frame)"]
  show ?thesis using t h1 h2 h3 h4 by simp
qed

text \<open>
  C1, as stated, fails: a run on a missing path, a run whose file cannot be parsed and a
  run whose table has no \<^verbatim>\<open>Time\<close> column all end with the same exit status.
\<close>

theorem fatal_exit_codes_counterexample:
  "main path_missing (reads_as (Inr five_row_frame)) default_args =
     ([CsvNotFound ''rec.csv''], SysExit 1) \<and>
   main path_found (reads_as (Inl (ReadError ''bad''))) default_args =
     ([FailedToReadCsv (ReadError ''bad'')], Uncaught (ReadError ''bad'')) \<and>
   main path_found (reads_as (Inr aux_frame)) default_args =
     ([], Uncaught (ValueError ''CSV must include a 'Time' column in seconds.'')) \<and>
   exit_status (snd (main path_missing (reads_as (Inr five_row_frame)) default_args)) =
     exit_status (snd (main path_found (reads_as (Inl (ReadError ''bad''))) default_args)) \<and>
   exit_status (snd (main path_found (reads_as (Inl (ReadError ''bad''))) default_args)) =
     exit_status (snd (main path_found (reads_as (Inr aux_frame)) default_args))"
  by (simp add: main_def load_data_def path_missing_def path_found_def reads_as_def
      default_args_def aux_frame_def)

text \<open>
  C1, amended. Each of the three fatal failures ends the process with a non-zero exit
  status, and that status is 1 for all three: \<^verbatim>\<open>sys.exit(1)\<close> for the missing path, an
  uncaught exception for the parse failure and for the missing \<^verbatim>\<open>Time\<close> column.
\<close>

theorem fatal_failures_exit_status:
  "(\<not> path_exists (arg_csv args) \<longrightarrow>
      main path_exists read_csv args = ([CsvNotFound (arg_csv args)], SysExit 1) \<and>
      exit_status (snd (main path_exists read_csv args)) = 1) \<and>
   (path_exists (arg_csv args) \<and> read_csv (arg_csv args) = Inl e \<longrightarrow>
      main path_exists read_csv args = ([FailedToReadCsv e], Uncaught e) \<and>
      exit_status (snd (main path_exists read_csv args)) = 1) \<and>
   (path_exists (arg_csv args) \<and> read_csv (arg_csv args) = Inr df \<and>
    ''Time'' \<notin> set (columns df) \<longrightarrow>
      main path_exists read_csv args =
        ([], Uncaught (ValueError ''CSV must include a 'Time' column in seconds.'')) \<and>
      exit_status (snd (main path_exists read_csv args)) = 1)"
proof (intro conjI impI)
  assume "\<not> path_exists (arg_csv args)"
  then show m: "main path_exists read_csv args = ([CsvNotFound (arg_csv args)], SysExit 1)"
    by (rule main_missing_path)
  show "exit_status (snd (main path_exists read_csv args)) = 1" by (simp add: m)
next
  assume a: "path_exists (arg_csv args) \<and> read_csv (arg_csv args) = Inl e"
  then have "load_data read_csv (arg_csv args) (arg_downsample args) = ([FailedToReadCsv e], Inl e)"
    by (simp add: load_data_parse_error)
  then show m: "main path_exists read_csv args = ([FailedToReadCsv e], Uncaught e)"
    using a by (simp add: main_load_failed)
  show "exit_status (snd (main path_exists read_csv args)) = 1" by (simp add: m)
next
  assume a: "path_exists (arg_csv args) \<and> read_csv (arg_csv args) = Inr df \<and>
    ''Time'' \<notin> set (columns df)"
  then have "load_data read_csv (arg_csv args) (arg_downsample args) =
       ([], Inl (ValueError ''CSV must include a 'Time' column in seconds.''))"
    by (simp add: load_data_no_time)
  then show m: "main path_exists read_csv args =
        ([], Uncaught (ValueError ''CSV must include a 'Time' column in seconds.''))"
    using a by (simp add: main_load_failed)
  show "exit_status (snd (main path_exists read_csv args)) = 1" by (simp add: m)
qed

theorem fatal_failures_exit_status_witness:
  "path_missing (arg_csv default_args) = False \<and>
   exit_status (snd (main path_missing (reads_as (Inr five_row_frame)) default_args)) = 1 \<and>
   path_found (arg_csv default_args) \<and>
   reads_as (Inl (ReadError ''bad'')) (arg_csv default_args) = Inl (ReadError ''bad'') \<and>
   exit_status (snd (main path_found (reads_as (Inl (ReadError ''bad''))) default_args)) = 1 \<and>
   reads_as (Inr aux_frame) (arg_csv default_args) = Inr aux_frame \<and>
   ''Time'' \<notin> set (columns aux_frame) \<and>
   exit_status (snd (main path_found (reads_as (Inr aux_frame)) default_args)) = 1"
proof -
  have h1: "\<not> path_missing (arg_csv default_args)" by (simp add: path_missing_def)
  have h2: "path_found (arg_csv default_args)" by (simp add: path_found_def)
  have h3: "reads_as (Inl (ReadError ''bad'')) (arg_csv default_args) = Inl (ReadError ''bad'')"
    by (simp add: reads_as_def)
  have h4: "reads_as (Inr aux_frame) (arg_csv default_args) = Inr aux_frame"
    by (simp add: reads_as_def)
  have h5: "''Time'' \<notin> set (columns aux_frame)" by (simp add: aux_frame_def)
  have a: "exit_status (snd (main path_missing (reads_as (Inr five_row_frame)) default_args)) = 1"
    using fatal_failures_exit_status
      [where path_exists = path_missing and args = default_args
         and read_csv = "reads_as (Inr five_row_frame)"] h1
    by blast
  have b: "exit_status (snd (main path_found (reads_as (Inl (ReadError ''bad''))) default_args)) = 1"
    using fatal_failures_exit_status
      [where path_exists = path_found and args = default_args
         and read_csv = "reads_as (Inl (ReadError ''bad''))" and e = "ReadError ''bad''"] h2 h3
    by blast
  have c: "exit_status (snd (main path_found (reads_as (Inr aux_frame)) default_args)) = 1"
    using fatal_failures_exit_status
      [where path_exists = path_found and args = default_args
         and read_csv = "reads_as (Inr aux_frame)" and df = aux_frame] h2 h4 h5
    by blast
  show ?thesis using h1 h2 h3 h4 h5 a b c by simp
qed

end
